theory Spec2Isabelle
  imports Complex_Main
begin

section \<open>Scores\<close>

text \<open>
  \<open>score_t\<close> is a floating-point type (\<open>Homology.hh\<close> computes \<open>1.0*num/(...)\<close> and
  starts the column scan at \<open>-1\<close>).  The only arithmetic the program does on scores is one
  division of two unsigned integers; everything else is comparison.  A score is modelled by
  the exact quotient, or by one of the two special values such a division can yield: the
  quotient of a positive number by zero, and the quotient \<open>0/0\<close>, which is not a number.
  Rounding of the quotient is not modelled.
\<close>

datatype score = Fin rat | PInf | NaN

text \<open>The comparison \<open>a < b\<close> on scores: false whenever an operand is not a number.\<close>

fun score_less :: "score \<Rightarrow> score \<Rightarrow> bool" where
  "score_less (Fin a) (Fin b) = (a < b)"
| "score_less (Fin a) PInf = True"
| "score_less _ _ = False"

text \<open>The comparison \<open>a == b\<close> on scores: not-a-number equals nothing, itself included.\<close>

fun score_eq :: "score \<Rightarrow> score \<Rightarrow> bool" where
  "score_eq (Fin a) (Fin b) = (a = b)"
| "score_eq PInf PInf = True"
| "score_eq _ _ = False"

text \<open>The division \<open>1.0*num/d\<close> of two unsigned integers, as the floating-point unit does it.\<close>

definition fdiv :: "nat \<Rightarrow> nat \<Rightarrow> score" where
  "fdiv n d = (if d = 0 then (if n = 0 then NaN else PInf) else Fin (Fract (int n) (int d)))"

section \<open>\<open>KmersHandler::calculateKmers\<close>\<close>

text \<open>
  \<open>substr\<close> throws \<open>std::out_of_range\<close> when the start position is beyond the end of the
  string.
\<close>

datatype exn = OutOfRange

text \<open>
  Modelled from the spec: the class \<open>Kmer\<close> (\<open>Kmer.hh\<close>) is not among the sources.  A
  \<open>Kmer\<close> is taken to hold the positions at which one k-mer occurs: the constructor stores
  the first, \<open>addIndex\<close> adds one, and the multiplicity is their number.

  The two maps of \<open>calculateKmers\<close> share the \<open>Kmer\<close> objects through pointers.  An object
  is created once per first position, so the first position serves as its address:
  \<open>dictionary\<close> holds the objects by address (as \<open>dictionary_\<close> does, keyed by first
  position), and \<open>currentKmers\<close> maps a substring to the address of its object.
\<close>

record handler_state =
  currentKmers :: "(string \<times> nat) list"
  dictionary :: "(nat \<times> nat list) list"

definition addIndex :: "nat \<Rightarrow> nat \<Rightarrow> (nat \<times> nat list) list \<Rightarrow> (nat \<times> nat list) list" where
  "addIndex addr i d = map (\<lambda>(a, idxs). if a = addr then (a, idxs @ [i]) else (a, idxs)) d"

text \<open>The body of the \<open>for\<close> loop, lines 82-108, once \<open>substr\<close> has returned \<open>ss\<close>.\<close>

definition calculateKmers_body :: "string \<Rightarrow> nat \<Rightarrow> handler_state \<Rightarrow> handler_state" where
  "calculateKmers_body ss i st =
     (case map_of (currentKmers st) ss of
        None \<Rightarrow> st\<lparr>currentKmers := currentKmers st @ [(ss, i)],
                    dictionary := dictionary st @ [(i, [i])]\<rparr>
      | Some addr \<Rightarrow> st\<lparr>dictionary := addIndex addr i (dictionary st)\<rparr>)"

text \<open>
  The \<open>for\<close> loop, lines 81-109.  The counter \<open>i\<close> never exceeds the length of the string
  by more than one (the loop is left by the exception there), so it does not wrap around.
\<close>

function calculateKmers_loop ::
  "string \<Rightarrow> nat \<Rightarrow> nat \<Rightarrow> nat \<Rightarrow> handler_state \<Rightarrow> handler_state \<times> exn option"
where
  "calculateKmers_loop alphabet k kmersNum i st =
     (if i < kmersNum then
        (if length alphabet < i then (st, Some OutOfRange)
         else calculateKmers_loop alphabet k kmersNum (i + 1)
                (calculateKmers_body (take k (drop i alphabet)) i st))
      else (st, None))"
  by pat_completeness auto
termination
  by (relation "measure (\<lambda>(alphabet, k, kmersNum, i, st). length alphabet + 1 - i)") auto

text \<open>
  \<open>calculateKmers\<close>, lines 67-122.  \<open>k_\<close> is an \<open>unsigned int\<close> (below \<open>2 ^ 32\<close>), and
  \<open>kmersNum = alphabet_.length() - k_ + 1\<close> is computed in \<open>std::size_t\<close>, that is modulo
  \<open>2 ^ 64\<close>.  The result is the dictionary the handler holds afterwards and the exception
  that left the function, if any.
\<close>

definition calculateKmers :: "nat \<Rightarrow> string \<Rightarrow> (nat \<times> nat list) list \<times> exn option" where
  "calculateKmers k alphabet =
     (let kmersNum = (length alphabet + (2 ^ 64 - k) + 1) mod 2 ^ 64 in
      case calculateKmers_loop alphabet k kmersNum 0 \<lparr>currentKmers = [], dictionary = []\<rparr> of
        (st, e) \<Rightarrow> (dictionary st, e))"

text \<open>The sum of the multiplicities of a dictionary.\<close>

definition totalMultiplicity :: "(nat \<times> nat list) list \<Rightarrow> nat" where
  "totalMultiplicity d = sum_list (map (\<lambda>(a, idxs). length idxs) d)"

section \<open>The k-mer container of a gene\<close>

text \<open>
  Modelled from the spec: the class \<open>kmers::KmersContainer\<close> is not among the sources; only
  its getters \<open>getKmerSet\<close>, \<open>getMultiplicityNumber\<close> and \<open>getBiggerKey\<close> are used by
  \<open>Homology.hh\<close>.  The spec describes it as a sequence of (key, multiplicity) pairs sorted by
  key, with the total multiplicity and the largest key cached when the container is built.
\<close>

record KmersContainer =
  kmerSet :: "(nat \<times> nat) list"
  multiplicityNumber :: nat
  biggerKey :: nat

text \<open>
  The invariant of a built container (spec, data model) as far as the similarity engine
  relies on it: keys strictly increasing, the cached total is the sum of the multiplicities,
  and the cached largest key is the last key when there is one (it is not specified for an
  empty container).
\<close>

definition built :: "KmersContainer \<Rightarrow> bool" where
  "built c = (sorted_wrt (<) (map fst (kmerSet c))
     \<and> multiplicityNumber c = sum_list (map snd (kmerSet c))
     \<and> (kmerSet c \<noteq> [] \<longrightarrow> biggerKey c = fst (last (kmerSet c))))"

text \<open>
  Modelled from the spec: the class \<open>gene::Gene\<close> is not among the sources.  The fields are
  the sequence of the gene and what \<open>Homology.hh\<close> reads through \<open>getAlphabetLength\<close>,
  \<open>getKmersNum\<close>, \<open>getKmerContainer\<close> (a pointer, null until the k-mers are
  calculated) and \<open>getGeneFilePosition\<close>.
\<close>

record Gene =
  sequence :: string
  alphabetLength :: nat
  kmersNum :: nat
  kmerContainer :: "KmersContainer option"
  geneFilePosition :: nat

section \<open>The similarity engine (\<open>Homology::calculateSimilarity\<close>)\<close>

text \<open>
  The \<open>while\<close> loop of \<open>calculateSimilarity(shortestContainer, longestContainer)\<close>.  The two
  list arguments are what is left between each cursor and its end; the four numbers are
  \<open>num\<close>, \<open>den\<close>, \<open>currentShortestMultiplicity\<close> and \<open>currentLongestMultiplicity\<close>.
  The counters are natural numbers: each one is bounded by a total the containers store, so
  no counter wraps around when the containers hold their totals exactly.
\<close>

fun similarity_loop ::
  "nat \<Rightarrow> (nat \<times> nat) list \<Rightarrow> (nat \<times> nat) list \<Rightarrow> nat \<times> nat \<times> nat \<times> nat \<Rightarrow> nat \<times> nat \<times> nat \<times> nat"
where
  "similarity_loop longestBiggerKey [] ls acc = acc"
| "similarity_loop longestBiggerKey (s # ss) [] acc = acc"
| "similarity_loop longestBiggerKey ((shortestKey, currentKmerValue) # ss) ((longestKey, longestVal) # ls)
       (num, den, currentShortestMultiplicity, currentLongestMultiplicity) =
     (if shortestKey > longestBiggerKey then
        (num, den, currentShortestMultiplicity, currentLongestMultiplicity)
      else if shortestKey < longestKey then
        similarity_loop longestBiggerKey ss ((longestKey, longestVal) # ls)
          (num, den, currentShortestMultiplicity, currentLongestMultiplicity)
      else if shortestKey > longestKey then
        similarity_loop longestBiggerKey ((shortestKey, currentKmerValue) # ss) ls
          (num, den, currentShortestMultiplicity, currentLongestMultiplicity)
      else
        similarity_loop longestBiggerKey ss ls
          (num + (if currentKmerValue < longestVal then currentKmerValue else longestVal),
           den + (if currentKmerValue < longestVal then longestVal else currentKmerValue),
           currentShortestMultiplicity + currentKmerValue,
           currentLongestMultiplicity + longestVal))"

text \<open>The divisor of the final expression, from the loop's result.\<close>

definition similarity_divisor :: "KmersContainer \<Rightarrow> KmersContainer \<Rightarrow> nat \<times> nat \<times> nat \<times> nat \<Rightarrow> nat" where
  "similarity_divisor shortestContainer longestContainer r =
     (case r of (num, den, currentShortestMultiplicity, currentLongestMultiplicity) \<Rightarrow>
        den + ((multiplicityNumber shortestContainer - currentShortestMultiplicity)
             + (multiplicityNumber longestContainer - currentLongestMultiplicity)))"

text \<open>\<open>calculateSimilarity(kmersContainer_tr, kmersContainer_tr)\<close>, lines 275-326.\<close>

definition calculateSimilarityContainers :: "KmersContainer \<Rightarrow> KmersContainer \<Rightarrow> score" where
  "calculateSimilarityContainers shortestContainer longestContainer =
     (let r = similarity_loop (biggerKey longestContainer)
                (kmerSet shortestContainer) (kmerSet longestContainer) (0, 0, 0, 0)
      in fdiv (fst r) (similarity_divisor shortestContainer longestContainer r))"

text \<open>
  \<open>calculateSimilarity(gene_tr, gene_tr)\<close>, lines 250-272.  The lengths are divided as
  integers.  The result is \<open>None\<close> where the source dereferences a null container pointer.
\<close>

definition calculateSimilarity :: "Gene \<Rightarrow> Gene \<Rightarrow> score option" where
  "calculateSimilarity gene1 gene2 =
     (if alphabetLength gene1 < alphabetLength gene2 div 2
         \<or> alphabetLength gene2 < alphabetLength gene1 div 2
      then Some (Fin 0)
      else
        (case (if kmersNum gene1 < kmersNum gene2 then kmerContainer gene1 else kmerContainer gene2,
               if kmersNum gene1 < kmersNum gene2 then kmerContainer gene2 else kmerContainer gene1) of
           (Some shortestContainer, Some longestContainer) \<Rightarrow>
              Some (calculateSimilarityContainers shortestContainer longestContainer)
         | _ \<Rightarrow> None))"

section \<open>The generalized Jaccard index, as the spec defines it\<close>

text \<open>The keys of a container and the multiplicity of a key (0 for a key that is absent).\<close>

definition keys :: "(nat \<times> nat) list \<Rightarrow> nat set" where
  "keys ps = fst ` set ps"

definition multiplicity :: "(nat \<times> nat) list \<Rightarrow> nat \<Rightarrow> nat" where
  "multiplicity ps key = (case map_of ps key of None \<Rightarrow> 0 | Some m \<Rightarrow> m)"

text \<open>
  Spec, glossary: the sum of the minima over the sum of the maxima, over the union of the
  two supports.  The quotient is taken by the same division as in the code.
\<close>

definition generalized_jaccard :: "KmersContainer \<Rightarrow> KmersContainer \<Rightarrow> score" where
  "generalized_jaccard a b =
     fdiv (\<Sum>key \<in> keys (kmerSet a) \<union> keys (kmerSet b).
             min (multiplicity (kmerSet a) key) (multiplicity (kmerSet b) key))
          (\<Sum>key \<in> keys (kmerSet a) \<union> keys (kmerSet b).
             max (multiplicity (kmerSet a) key) (multiplicity (kmerSet b) key))"

text \<open>
  Spec, section 4.3: the four sums of the streaming merge, taken over the keys the two
  containers share: numerator, denominator, matchedShort and matchedLong.
\<close>

definition shared :: "(nat \<times> nat) list \<Rightarrow> (nat \<times> nat) list \<Rightarrow> nat \<times> nat \<times> nat \<times> nat" where
  "shared ss ls =
     (\<Sum>key \<in> keys ss \<inter> keys ls. min (multiplicity ss key) (multiplicity ls key),
      \<Sum>key \<in> keys ss \<inter> keys ls. max (multiplicity ss key) (multiplicity ls key),
      \<Sum>key \<in> keys ss \<inter> keys ls. multiplicity ss key,
      \<Sum>key \<in> keys ss \<inter> keys ls. multiplicity ls key)"

text \<open>Spec, section 4.3: \<open>numerator / (denominator + unmatchedShort + unmatchedLong)\<close>.\<close>

definition shared_quotient :: "KmersContainer \<Rightarrow> KmersContainer \<Rightarrow> score" where
  "shared_quotient s l =
     (case shared (kmerSet s) (kmerSet l) of (num, den, matchedShort, matchedLong) \<Rightarrow>
        fdiv num (den + ((multiplicityNumber s - matchedShort) + (multiplicityNumber l - matchedLong))))"

fun add4 :: "nat \<times> nat \<times> nat \<times> nat \<Rightarrow> nat \<times> nat \<times> nat \<times> nat \<Rightarrow> nat \<times> nat \<times> nat \<times> nat" where
  "add4 (a, b, c, d) (a', b', c', d') = (a + a', b + b', c + c', d + d')"

section \<open>The score matrix and the candidates\<close>

text \<open>
  Modelled from the spec: the class \<open>ScoresContainer\<close> (\<open>ScoresContainer.hh\<close>) is not
  among the sources.  The spec describes a row-major dense array of \<open>R \<times> C\<close> scores, all 0
  until written.
\<close>

record ScoresContainer =
  cols :: nat
  cells :: "score list"

definition newScoresContainer :: "nat \<Rightarrow> nat \<Rightarrow> ScoresContainer" where
  "newScoresContainer r c = \<lparr>cols = c, cells = replicate (r * c) (Fin 0)\<rparr>"

definition setScoreAt :: "ScoresContainer \<Rightarrow> nat \<Rightarrow> nat \<Rightarrow> score \<Rightarrow> ScoresContainer" where
  "setScoreAt sc row col v = sc\<lparr>cells := (cells sc)[row * cols sc + col := v]\<rparr>"

definition getScoreAt :: "ScoresContainer \<Rightarrow> nat \<Rightarrow> nat \<Rightarrow> score" where
  "getScoreAt sc row col = cells sc ! (row * cols sc + col)"

text \<open>
  Modelled from the spec: the class \<open>bbh::BBHCandidate\<close> (\<open>BBHCandidate.hh\<close>) is not among
  the sources.  Spec, data model: a candidate set holds the best score seen on its row
  (0 at first) and the columns that attain it; \<open>update(col, score)\<close> resets the columns to
  \<open>{col}\<close> when \<open>score > best\<close>, inserts \<open>col\<close> when \<open>score == best\<close> and \<open>best > 0\<close>, and
  ignores the score otherwise.  The fields carry the spec's names, \<open>best\<close> and
  \<open>columns\<close>; \<open>getBestScore\<close> and \<open>getCandidateList\<close> read them.
\<close>

record BBHCandidate =
  best :: score
  columns :: "nat list"

definition newBBHCandidate :: BBHCandidate where
  "newBBHCandidate = \<lparr>best = Fin 0, columns = []\<rparr>"

definition candidate_update :: "score \<Rightarrow> nat \<Rightarrow> BBHCandidate \<Rightarrow> BBHCandidate" where
  "candidate_update newScore newIndex c =
     (if score_less (best c) newScore then \<lparr>best = newScore, columns = [newIndex]\<rparr>
      else if score_eq newScore (best c) \<and> score_less (Fin 0) (best c)
        then c\<lparr>columns := List.insert newIndex (columns c)\<rparr>
      else c)"

text \<open>
  \<open>bbh::BBHCandidatesContainer\<close>: the constructor (lines 130-141), \<open>addCandidate\<close>
  (143-146) and \<open>getBestScoreForCandidate\<close> (196-199).  The callers keep the index below
  the capacity.
\<close>

record BBHCandidatesContainer =
  capacity :: nat
  candidates :: "BBHCandidate list"

definition newBBHCandidatesContainer :: "nat \<Rightarrow> nat \<Rightarrow> BBHCandidatesContainer" where
  "newBBHCandidatesContainer cap totalCols = \<lparr>capacity = cap, candidates = replicate cap newBBHCandidate\<rparr>"

definition addCandidate :: "BBHCandidatesContainer \<Rightarrow> nat \<Rightarrow> score \<Rightarrow> nat \<Rightarrow> BBHCandidatesContainer" where
  "addCandidate b candidateIndex newScore newIndex =
     b\<lparr>candidates := (candidates b)[candidateIndex := candidate_update newScore newIndex (candidates b ! candidateIndex)]\<rparr>"

definition getBestScoreForCandidate :: "BBHCandidatesContainer \<Rightarrow> nat \<Rightarrow> score" where
  "getBestScoreForCandidate b candidateIndex = best (candidates b ! candidateIndex)"

text \<open>
  \<open>getPossibleMatch\<close>, lines 164-189: the map from a column to the rows that list it.  The
  unordered map is an association list in the order of insertion, each set of rows a list
  without repetition.
\<close>

definition match_insert :: "nat \<Rightarrow> nat \<Rightarrow> (nat \<times> nat list) list \<Rightarrow> (nat \<times> nat list) list" where
  "match_insert i key m =
     (case map_of m key of
        None \<Rightarrow> m @ [(key, [i])]
      | Some rowset \<Rightarrow> map (\<lambda>(k, rs). if k = key then (k, List.insert i rs) else (k, rs)) m)"

definition getPossibleMatch :: "BBHCandidatesContainer \<Rightarrow> (nat \<times> nat list) list" where
  "getPossibleMatch b =
     fold (\<lambda>i m. fold (match_insert i) (columns (candidates b ! i)) m) [0..<capacity b] []"

section \<open>The row phase\<close>

text \<open>A loop whose body can fail: the first failure ends it.\<close>

fun foldM :: "('a \<Rightarrow> 's \<Rightarrow> 's option) \<Rightarrow> 'a list \<Rightarrow> 's \<Rightarrow> 's option" where
  "foldM f [] s = Some s"
| "foldM f (x # xs) s = (case f x s of None \<Rightarrow> None | Some s' \<Rightarrow> foldM f xs s')"

text \<open>
  The body of the inner loop of a row task (lines 538-542 and 565-571): one similarity,
  written to the matrix and offered to the row's candidate set.
\<close>

definition row_step ::
  "Gene \<Rightarrow> Gene list \<Rightarrow> nat \<Rightarrow> nat \<Rightarrow> BBHCandidatesContainer \<times> ScoresContainer
     \<Rightarrow> (BBHCandidatesContainer \<times> ScoresContainer) option"
where
  "row_step rowGene colGenes row col st =
     (case st of (bestRows, scores) \<Rightarrow>
        (case calculateSimilarity rowGene (colGenes ! col) of
           None \<Rightarrow> None
         | Some currentScore \<Rightarrow>
             Some (addCandidate bestRows row currentScore col, setScoreAt scores row col currentScore)))"

text \<open>
  \<open>calculateRow\<close>, lines 553-579, and \<open>calculateRowSame\<close>, lines 529-551.  Each row is a
  task of the thread pool; a task writes only the cells and the candidate set of its own
  row, so the tasks are run here one after the other, in the order they are submitted.
\<close>

definition calculateRow ::
  "Gene list \<Rightarrow> Gene list \<Rightarrow> BBHCandidatesContainer \<times> ScoresContainer
     \<Rightarrow> (BBHCandidatesContainer \<times> ScoresContainer) option"
where
  "calculateRow rowGenes colGenes st =
     foldM (\<lambda>row. foldM (row_step (rowGenes ! row) colGenes row) [0..<length colGenes])
       [0..<length rowGenes] st"

definition calculateRowSame ::
  "Gene list \<Rightarrow> BBHCandidatesContainer \<times> ScoresContainer
     \<Rightarrow> (BBHCandidatesContainer \<times> ScoresContainer) option"
where
  "calculateRowSame genes st =
     foldM (\<lambda>row. foldM (row_step (genes ! row) genes row) [row + 1..<length genes])
       [0..<length genes] st"

section \<open>The column phase\<close>

text \<open>
  The scan of one column (lines 675-685 and 816-826): the best score so far and the rows
  that attain it.
\<close>

definition scan_step :: "ScoresContainer \<Rightarrow> nat \<Rightarrow> nat \<Rightarrow> score \<times> nat list \<Rightarrow> score \<times> nat list" where
  "scan_step scores colGeneId row acc =
     (case acc of (bestScore, currentBestIndexs) \<Rightarrow>
        (let currentScore = getScoreAt scores row colGeneId in
         if score_less bestScore currentScore then (currentScore, [row])
         else if score_eq currentScore bestScore then (bestScore, List.insert row currentBestIndexs)
         else (bestScore, currentBestIndexs)))"

text \<open>
  One column task (lines 663-708 and 804-850) over the rows it scans: the edges
  \<open>(row, column, score)\<close> it writes.
\<close>

definition column_task ::
  "ScoresContainer \<Rightarrow> BBHCandidatesContainer \<Rightarrow> nat list \<Rightarrow> nat \<Rightarrow> (nat \<times> nat \<times> score) list"
where
  "column_task scores cands scanned colGeneId =
     (case fold (scan_step scores colGeneId) scanned (Fin (- 1), []) of
        (bestScore, currentBestIndexs) \<Rightarrow>
          map (\<lambda>currentIndex. (currentIndex, colGeneId, bestScore))
            (filter (\<lambda>currentIndex. score_eq bestScore (getBestScoreForCandidate cands currentIndex))
               currentBestIndexs))"

text \<open>
  \<open>checkForBBH\<close> (lines 581-723) and \<open>checkForBBHSame\<close> (lines 725-863), without
  \<open>bbhPrint\<close>.  The column tasks append to one stream; the edges are listed here in the
  order in which the tasks are submitted.
\<close>

definition checkForBBH ::
  "Gene list \<Rightarrow> Gene list \<Rightarrow> BBHCandidatesContainer \<Rightarrow> ScoresContainer \<Rightarrow> (nat \<times> nat \<times> score) list"
where
  "checkForBBH colGenes rowGenes cands scores =
     concat (map (\<lambda>(colGeneId, rowset). column_task scores cands [0..<length rowGenes] colGeneId)
               (getPossibleMatch cands))"

definition checkForBBHSame ::
  "Gene list \<Rightarrow> BBHCandidatesContainer \<Rightarrow> ScoresContainer \<Rightarrow> (nat \<times> nat \<times> score) list"
where
  "checkForBBHSame genes cands scores =
     concat (map (\<lambda>(colGeneId, rowset). column_task scores cands [0..<colGeneId] colGeneId)
               (getPossibleMatch cands))"

text \<open>
  \<open>calculateBidirectionalBestHitDifferentGenomes\<close> (lines 384-456) and
  \<open>calculateBidirectionalBestHitSameGenome\<close> (lines 459-527): the edges written for one
  pair of genomes, or \<open>None\<close> when a similarity dereferences a null container.
\<close>

definition calculateBidirectionalBestHitDifferentGenomes ::
  "Gene list \<Rightarrow> Gene list \<Rightarrow> (nat \<times> nat \<times> score) list option"
where
  "calculateBidirectionalBestHitDifferentGenomes colGenes rowGenes =
     (case calculateRow rowGenes colGenes
             (newBBHCandidatesContainer (length rowGenes) (length colGenes),
              newScoresContainer (length rowGenes) (length colGenes)) of
        None \<Rightarrow> None
      | Some (bestRows, scores) \<Rightarrow> Some (checkForBBH colGenes rowGenes bestRows scores))"

definition calculateBidirectionalBestHitSameGenome :: "Gene list \<Rightarrow> (nat \<times> nat \<times> score) list option" where
  "calculateBidirectionalBestHitSameGenome genes =
     (case calculateRowSame genes
             (newBBHCandidatesContainer (length genes) (length genes),
              newScoresContainer (length genes) (length genes)) of
        None \<Rightarrow> None
      | Some (bestRows, scores) \<Rightarrow> Some (checkForBBHSame genes bestRows scores))"

section \<open>The k-mer indexer (spec, sections 4.1 and 4.2)\<close>

text \<open>
  Modelled from the spec: the class \<open>kmers::KmerMapper\<close> (\<open>KmerMapper.hh\<close>) is not among
  the sources.  Spec, section 4.1: \<open>intern\<close> returns the key of a substring that has been
  seen, and otherwise assigns the next unused number, counting from 0.  The mapper is the
  list of the substrings seen, each with its key, in the order in which they were seen.
\<close>

type_synonym KmerMapper = "(string \<times> nat) list"

definition intern :: "KmerMapper \<Rightarrow> string \<Rightarrow> nat \<times> KmerMapper" where
  "intern mapper w =
     (case map_of mapper w of
        Some key \<Rightarrow> (key, mapper)
      | None \<Rightarrow> (length mapper, mapper @ [(w, length mapper)]))"

text \<open>
  Modelled from the spec: the construction of a \<open>KmersContainer\<close> is not among the sources.
  Spec, section 4.2: the windows \<open>W_0, ..., W_{L-k}\<close> of length \<open>k\<close> (none when \<open>L < k\<close>)
  are interned one after the other; a temporary map counts the occurrences of each key; the
  pairs are then stored sorted by key, with the total multiplicity and the largest key.
\<close>

definition windows :: "nat \<Rightarrow> string \<Rightarrow> string list" where
  "windows k s = (if length s < k then [] else map (\<lambda>i. take k (drop i s)) [0..<length s - k + 1])"

definition count_window :: "string \<Rightarrow> KmerMapper \<times> (nat \<times> nat) list \<Rightarrow> KmerMapper \<times> (nat \<times> nat) list" where
  "count_window w st =
     (case st of (mapper, temp) \<Rightarrow>
        (case intern mapper w of (key, mapper') \<Rightarrow>
           (mapper',
            case map_of temp key of
              None \<Rightarrow> temp @ [(key, 1)]
            | Some n \<Rightarrow> map (\<lambda>(key', n'). if key' = key then (key', n' + 1) else (key', n')) temp)))"

definition buildContainer :: "nat \<Rightarrow> KmerMapper \<Rightarrow> string \<Rightarrow> KmerMapper \<times> KmersContainer" where
  "buildContainer k mapper s =
     (case fold count_window (windows k s) (mapper, []) of (mapper', temp) \<Rightarrow>
        (mapper',
         \<lparr>kmerSet = sort_key fst temp,
          multiplicityNumber = sum_list (map snd (sort_key fst temp)),
          biggerKey = (if temp = [] then 0 else fst (last (sort_key fst temp)))\<rparr>))"

text \<open>
  Modelled from the spec: \<open>Genome::createAndCalculateAllKmers\<close> and
  \<open>Genome::deleteAllKmers\<close> are not among the sources.  The first builds the container of
  every gene of the genome with the mapper it is given, the second releases them.  The genes
  are taken one after the other.
\<close>

definition createKmers :: "nat \<Rightarrow> KmerMapper \<Rightarrow> Gene \<Rightarrow> KmerMapper \<times> Gene" where
  "createKmers k mapper g =
     (case buildContainer k mapper (sequence g) of (mapper', c) \<Rightarrow>
        (mapper', g\<lparr>kmersNum := length (kmerSet c), kmerContainer := Some c\<rparr>))"

fun createAndCalculateAllKmers :: "nat \<Rightarrow> KmerMapper \<Rightarrow> Gene list \<Rightarrow> KmerMapper \<times> Gene list" where
  "createAndCalculateAllKmers k mapper [] = (mapper, [])"
| "createAndCalculateAllKmers k mapper (g # gs) =
     (case createKmers k mapper g of (mapper', g') \<Rightarrow>
        (case createAndCalculateAllKmers k mapper' gs of (mapper'', gs') \<Rightarrow> (mapper'', g' # gs')))"

definition deleteAllKmers :: "Gene list \<Rightarrow> Gene list" where
  "deleteAllKmers gs = map (\<lambda>g. g\<lparr>kmerContainer := None\<rparr>) gs"

section \<open>The driver (\<open>Homology::calculateBidirectionalBestHit\<close>)\<close>

text \<open>
  The lines written for the edges of a genome pair: the file positions of the two genes and
  the score (lines 695-703 and 838-846).
\<close>

definition write_edges :: "Gene list \<Rightarrow> Gene list \<Rightarrow> (nat \<times> nat \<times> score) list \<Rightarrow> (nat \<times> nat \<times> score) list" where
  "write_edges rowGenes colGenes es =
     map (\<lambda>(r, c, s). (geneFilePosition (rowGenes ! r), geneFilePosition (colGenes ! c), s)) es"

definition lines_same :: "Gene list \<Rightarrow> (nat \<times> nat \<times> score) list option" where
  "lines_same genes = map_option (write_edges genes genes) (calculateBidirectionalBestHitSameGenome genes)"

definition lines_different :: "Gene list \<Rightarrow> Gene list \<Rightarrow> (nat \<times> nat \<times> score) list option" where
  "lines_different colGenes rowGenes =
     map_option (write_edges rowGenes colGenes) (calculateBidirectionalBestHitDifferentGenomes colGenes rowGenes)"

text \<open>
  \<open>calculateBidirectionalBestHit\<close> with \<open>mode == true\<close>, lines 333-352: the inner loop over
  the column genomes, which returns the genomes as it leaves them, and the outer loop over
  the row genomes, with a new mapper for each.
\<close>

fun lazy_cols ::
  "nat \<Rightarrow> KmerMapper \<Rightarrow> Gene list \<Rightarrow> Gene list list \<Rightarrow> (Gene list list \<times> (nat \<times> nat \<times> score) list) option"
where
  "lazy_cols k mapper rowRef [] = Some ([], [])"
| "lazy_cols k mapper rowRef (colGenome # rest) =
     (case createAndCalculateAllKmers k mapper colGenome of (mapper', col') \<Rightarrow>
        (case lines_different col' rowRef of
           None \<Rightarrow> None
         | Some out \<Rightarrow>
             (case lazy_cols k mapper' rowRef rest of
                None \<Rightarrow> None
              | Some (rest', out') \<Rightarrow> Some (deleteAllKmers col' # rest', out @ out'))))"

text \<open>The inner loop returns as many genomes as it is given.\<close>

lemma lazy_cols_length: "lazy_cols k mapper rowRef gs = Some (gs', out) \<Longrightarrow> length gs' = length gs"
  by (induction gs arbitrary: mapper gs' out) (auto split: prod.splits option.splits)

function lazy_rows :: "nat \<Rightarrow> Gene list list \<Rightarrow> (Gene list list \<times> (nat \<times> nat \<times> score) list) option" where
  "lazy_rows k [] = Some ([], [])"
| "lazy_rows k (rowGenome # rest) =
     (case createAndCalculateAllKmers k [] rowGenome of (mapper, rowRef) \<Rightarrow>
        (case lines_same rowRef of
           None \<Rightarrow> None
         | Some out \<Rightarrow>
             (case lazy_cols k mapper rowRef rest of
                None \<Rightarrow> None
              | Some (rest', out1) \<Rightarrow>
                  (case lazy_rows k rest' of
                     None \<Rightarrow> None
                   | Some (rest'', out2) \<Rightarrow> Some (deleteAllKmers rowRef # rest'', out @ out1 @ out2)))))"
  by pat_completeness auto
termination
  by (relation "measure (\<lambda>(k, gs). length gs)") (auto dest: lazy_cols_length)

text \<open>
  \<open>calculateBidirectionalBestHit\<close> with \<open>mode == false\<close>, lines 354-377: all k-mers first,
  with one mapper, then the two loops.  Releasing the k-mers of a row genome after its row
  changes nothing that is read later.
\<close>

fun createAllGenomes :: "nat \<Rightarrow> KmerMapper \<Rightarrow> Gene list list \<Rightarrow> KmerMapper \<times> Gene list list" where
  "createAllGenomes k mapper [] = (mapper, [])"
| "createAllGenomes k mapper (genome # rest) =
     (case createAndCalculateAllKmers k mapper genome of (mapper', genome') \<Rightarrow>
        (case createAllGenomes k mapper' rest of (mapper'', rest') \<Rightarrow> (mapper'', genome' # rest')))"

fun eager_cols :: "Gene list \<Rightarrow> Gene list list \<Rightarrow> (nat \<times> nat \<times> score) list option" where
  "eager_cols rowRef [] = Some []"
| "eager_cols rowRef (colGenome # rest) =
     (case lines_different colGenome rowRef of
        None \<Rightarrow> None
      | Some out \<Rightarrow> (case eager_cols rowRef rest of None \<Rightarrow> None | Some out' \<Rightarrow> Some (out @ out')))"

fun eager_rows :: "Gene list list \<Rightarrow> (nat \<times> nat \<times> score) list option" where
  "eager_rows [] = Some []"
| "eager_rows (rowRef # rest) =
     (case lines_same rowRef of
        None \<Rightarrow> None
      | Some out \<Rightarrow>
          (case eager_cols rowRef rest of
             None \<Rightarrow> None
           | Some out1 \<Rightarrow>
               (case eager_rows rest of None \<Rightarrow> None | Some out2 \<Rightarrow> Some (out @ out1 @ out2))))"

definition calculateBidirectionalBestHit :: "nat \<Rightarrow> Gene list list \<Rightarrow> bool \<Rightarrow> (nat \<times> nat \<times> score) list option" where
  "calculateBidirectionalBestHit k genomes mode =
     (if mode then map_option snd (lazy_rows k genomes)
      else eager_rows (snd (createAllGenomes k [] genomes)))"

section \<open>Invariants of the two scans\<close>

text \<open>
  The state of a candidate set after the scores \<open>f c\<close> of the columns \<open>c \<in> S\<close> have been
  offered to it: its best score is a number, not below 0 and not below any score offered;
  when it is above 0, the columns are exactly those that attain it; otherwise there are none.
\<close>

definition cand_inv :: "(nat \<Rightarrow> score) \<Rightarrow> nat set \<Rightarrow> BBHCandidate \<Rightarrow> bool" where
  "cand_inv f S cand =
     (best cand \<noteq> NaN \<and> \<not> score_less (best cand) (Fin 0)
      \<and> (\<forall>c \<in> S. \<not> score_less (best cand) (f c))
      \<and> distinct (columns cand)
      \<and> (if score_less (Fin 0) (best cand)
          then set (columns cand) = {c \<in> S. score_eq (f c) (best cand)} \<and> columns cand \<noteq> []
          else columns cand = [] \<and> best cand = Fin 0))"

text \<open>
  The state of a column scan after the rows in \<open>S\<close>: the best score is a number not below
  any score scanned, and the rows kept are exactly those that attain it.
\<close>

definition scan_inv :: "ScoresContainer \<Rightarrow> nat \<Rightarrow> nat set \<Rightarrow> score \<times> nat list \<Rightarrow> bool" where
  "scan_inv scores c S acc =
     (case acc of (b, idxs) \<Rightarrow>
        b \<noteq> NaN
        \<and> (\<forall>r \<in> S. \<not> score_less b (getScoreAt scores r c))
        \<and> set idxs = {r \<in> S. score_eq (getScoreAt scores r c) b}
        \<and> distinct idxs)"

section \<open>Invariants of the row phase\<close>

text \<open>The state the row phase works on: the candidates and the score matrix of a genome pair.\<close>

type_synonym phase_state = "BBHCandidatesContainer \<times> ScoresContainer"

text \<open>The candidates container has \<open>R\<close> rows and the matrix \<open>R \<times> C\<close> cells.\<close>

definition sized :: "nat \<Rightarrow> nat \<Rightarrow> phase_state \<Rightarrow> bool" where
  "sized R C st = (length (candidates (fst st)) = R \<and> cols (snd st) = C \<and> length (cells (snd st)) = R * C)"

text \<open>
  What a step leaves alone: the sizes, the candidate sets of the rows outside \<open>Rs\<close> and
  the cells outside \<open>W\<close>.
\<close>

definition frame :: "nat set \<Rightarrow> (nat \<times> nat) set \<Rightarrow> phase_state \<Rightarrow> phase_state \<Rightarrow> bool" where
  "frame Rs W st st' =
     (length (candidates (fst st')) = length (candidates (fst st))
      \<and> capacity (fst st') = capacity (fst st)
      \<and> cols (snd st') = cols (snd st)
      \<and> length (cells (snd st')) = length (cells (snd st))
      \<and> (\<forall>r. r \<notin> Rs \<longrightarrow> candidates (fst st') ! r = candidates (fst st) ! r)
      \<and> (\<forall>r c. c < cols (snd st) \<longrightarrow> (r, c) \<notin> W \<longrightarrow> getScoreAt (snd st') r c = getScoreAt (snd st) r c))"

text \<open>
  Row \<open>r\<close> is done for the columns in \<open>C\<close>: its cells there hold the similarities of
  its gene, and its candidate set reflects exactly those cells.
\<close>

definition row_ok :: "Gene \<Rightarrow> Gene list \<Rightarrow> nat \<Rightarrow> nat set \<Rightarrow> phase_state \<Rightarrow> bool" where
  "row_ok g colGenes r C st =
     (cand_inv (getScoreAt (snd st) r) C (candidates (fst st) ! r)
      \<and> (\<forall>c \<in> C. calculateSimilarity g (colGenes ! c) = Some (getScoreAt (snd st) r c)))"

section \<open>Example genes\<close>

text \<open>
  Scenario S4 of the spec (\<open>k = 3\<close>), with the keys in the order in which the k-mers are
  first seen (\<open>ABC\<close> 0, \<open>BCA\<close> 1, \<open>CAB\<close> 2, \<open>BCX\<close> 3, \<open>CXY\<close> 4, \<open>XYZ\<close> 5), and a third
  gene \<open>AAAABC\<close> whose other k-mers take the keys 3 and 4.
\<close>

definition containerABCABC :: KmersContainer where
  "containerABCABC = \<lparr>kmerSet = [(0, 2), (1, 1), (2, 1)], multiplicityNumber = 4, biggerKey = 2\<rparr>"

definition containerABCXYZ :: KmersContainer where
  "containerABCXYZ = \<lparr>kmerSet = [(0, 1), (3, 1), (4, 1), (5, 1)], multiplicityNumber = 4, biggerKey = 5\<rparr>"

definition containerAAAABC :: KmersContainer where
  "containerAAAABC = \<lparr>kmerSet = [(0, 1), (3, 2), (4, 1)], multiplicityNumber = 4, biggerKey = 4\<rparr>"

definition geneABCABC :: Gene where
  "geneABCABC = \<lparr>sequence = ''ABCABC'', alphabetLength = 6, kmersNum = 3,
     kmerContainer = Some containerABCABC, geneFilePosition = 10\<rparr>"

definition geneABCXYZ :: Gene where
  "geneABCXYZ = \<lparr>sequence = ''ABCXYZ'', alphabetLength = 6, kmersNum = 4,
     kmerContainer = Some containerABCXYZ, geneFilePosition = 20\<rparr>"

definition geneAAAABC :: Gene where
  "geneAAAABC = \<lparr>sequence = ''AAAABC'', alphabetLength = 6, kmersNum = 3,
     kmerContainer = Some containerAAAABC, geneFilePosition = 40\<rparr>"

text \<open>Two genes shorter than \<open>k = 4\<close>: their containers are empty.\<close>

definition containerEmpty :: KmersContainer where
  "containerEmpty = \<lparr>kmerSet = [], multiplicityNumber = 0, biggerKey = 0\<rparr>"

definition geneShort :: Gene where
  "geneShort = \<lparr>sequence = ''AB'', alphabetLength = 2, kmersNum = 0,
     kmerContainer = Some containerEmpty, geneFilePosition = 30\<rparr>"

definition geneShort3 :: Gene where
  "geneShort3 = \<lparr>sequence = ''ABC'', alphabetLength = 3, kmersNum = 0,
     kmerContainer = Some containerEmpty, geneFilePosition = 31\<rparr>"

text \<open>A gene of length 6 with its three 4-mers \<open>ABCA\<close>, \<open>BCAB\<close> and \<open>CABC\<close>.\<close>

definition containerABCABC4 :: KmersContainer where
  "containerABCABC4 = \<lparr>kmerSet = [(0, 1), (1, 1), (2, 1)], multiplicityNumber = 3, biggerKey = 2\<rparr>"

definition geneABCABC4 :: Gene where
  "geneABCABC4 = \<lparr>sequence = ''ABCABC'', alphabetLength = 6, kmersNum = 3,
     kmerContainer = Some containerABCABC4, geneFilePosition = 32\<rparr>"

text \<open>Scenario S2 of the spec: lengths 100 and 49, \<open>k = 4\<close>, no k-mers calculated.\<close>

definition gene100 :: Gene where
  "gene100 = \<lparr>sequence = replicate 100 CHR ''A'', alphabetLength = 100, kmersNum = 97,
     kmerContainer = None, geneFilePosition = 50\<rparr>"

definition gene49 :: Gene where
  "gene49 = \<lparr>sequence = replicate 49 CHR ''A'', alphabetLength = 49, kmersNum = 46,
     kmerContainer = None, geneFilePosition = 51\<rparr>"

section \<open>Invariants of the k-mer indexer\<close>

text \<open>A mapper holds each substring once, and its keys are \<open>0, 1, 2, ...\<close> in order.\<close>

definition mapper_ok :: "KmerMapper \<Rightarrow> bool" where
  "mapper_ok m = (distinct (map fst m) \<and> map snd m = [0..<length m])"

text \<open>
  The temporary map \<open>temp\<close> counts the windows \<open>ws\<close> under the mapper \<open>m\<close>: the key of each
  window carries the number of its occurrences, and there is no other key.
\<close>

definition rep_counts :: "KmerMapper \<Rightarrow> (nat \<times> nat) list \<Rightarrow> string list \<Rightarrow> bool" where
  "rep_counts m temp ws =
     (distinct (map fst temp)
      \<and> (\<forall>w \<in> set ws. \<exists>key. map_of m w = Some key \<and> map_of temp key = Some (count_list ws w))
      \<and> (\<forall>key \<in> fst ` set temp. \<exists>w \<in> set ws. map_of m w = Some key))"

text \<open>The same of a built container.\<close>

definition represents :: "KmerMapper \<Rightarrow> string list \<Rightarrow> KmersContainer \<Rightarrow> bool" where
  "represents m ws c =
     (built c
      \<and> (\<forall>w \<in> set ws. \<exists>key. map_of m w = Some key \<and> multiplicity (kmerSet c) key = count_list ws w)
      \<and> (\<forall>key \<in> keys (kmerSet c). \<exists>w \<in> set ws. map_of m w = Some key))"

text \<open>A gene whose container is built and counts the windows of its sequence.\<close>

definition gene_rep :: "KmerMapper \<Rightarrow> nat \<Rightarrow> Gene \<Rightarrow> bool" where
  "gene_rep m k g = (\<exists>c. kmerContainer g = Some c \<and> represents m (windows k (sequence g)) c)"

text \<open>What the k-mer construction leaves of a gene as it finds it.\<close>

definition core :: "Gene \<Rightarrow> string \<times> nat \<times> nat" where
  "core g = (sequence g, alphabetLength g, geneFilePosition g)"

section \<open>The similarity of two sequences\<close>

text \<open>
  The generalized Jaccard index of two lists of windows, counted as strings, and the
  similarity of two genes as their sequences and lengths determine it.
\<close>

definition seq_jaccard :: "string list \<Rightarrow> string list \<Rightarrow> score" where
  "seq_jaccard ws1 ws2 =
     fdiv (\<Sum>w \<in> set ws1 \<union> set ws2. min (count_list ws1 w) (count_list ws2 w))
          (\<Sum>w \<in> set ws1 \<union> set ws2. max (count_list ws1 w) (count_list ws2 w))"

definition seq_similarity :: "nat \<Rightarrow> string \<times> nat \<times> nat \<Rightarrow> string \<times> nat \<times> nat \<Rightarrow> score" where
  "seq_similarity k a b =
     (case (a, b) of ((s1, l1, p1), (s2, l2, p2)) \<Rightarrow>
        if l1 < l2 div 2 \<or> l2 < l1 div 2 then Fin 0
        else seq_jaccard (windows k s1) (windows k s2))"

section \<open>Example genomes\<close>

text \<open>
  A gene as it is read from the input, before any k-mer is built, and two genomes of such
  genes; the last gene is shorter than \<open>k = 3\<close>.
\<close>

definition parsedGene :: "string \<Rightarrow> nat \<Rightarrow> Gene" where
  "parsedGene s p = \<lparr>sequence = s, alphabetLength = length s, kmersNum = 0,
     kmerContainer = None, geneFilePosition = p\<rparr>"

definition exampleGenomes :: "Gene list list" where
  "exampleGenomes = [[parsedGene ''ABCABC'' 10, parsedGene ''ABCXYZ'' 20],
                     [parsedGene ''AAAABC'' 40, parsedGene ''ABCABC'' 11, parsedGene ''AB'' 1]]"

section \<open>The length filter\<close>

text \<open>
  C9.  When one gene is shorter than half the other (integer halves), \<open>calculateSimilarity\<close>
  returns 0 whatever the k-mer containers of the two genes are, also when a container has
  not been built (a null pointer): the containers are not looked at.
\<close>

theorem length_filter_returns_zero:
  "alphabetLength gene1 < alphabetLength gene2 div 2 \<or> alphabetLength gene2 < alphabetLength gene1 div 2
   \<Longrightarrow> calculateSimilarity gene1 gene2 = Some (Fin 0)"
  by (simp add: calculateSimilarity_def)

theorem length_filter_returns_zero_witness:
  "calculateSimilarity gene100 gene49 = Some (Fin 0)"
  using length_filter_returns_zero [of gene100 gene49]
  by (simp add: gene100_def gene49_def)

section \<open>The streaming merge computes the generalized Jaccard index\<close>

lemma finite_keys [simp]: "finite (keys ps)"
  by (simp add: keys_def)

lemma keys_Nil [simp]: "keys [] = {}"
  by (simp add: keys_def)

lemma keys_Cons [simp]: "keys ((k, v) # ps) = insert k (keys ps)"
  by (simp add: keys_def)

lemma multiplicity_Cons_same [simp]: "multiplicity ((k, v) # ps) k = v"
  by (simp add: multiplicity_def)

lemma multiplicity_Cons_other [simp]: "k' \<noteq> k \<Longrightarrow> multiplicity ((k, v) # ps) k' = multiplicity ps k'"
  by (simp add: multiplicity_def)

lemma multiplicity_notin: "key \<notin> keys ps \<Longrightarrow> multiplicity ps key = 0"
proof -
  assume "key \<notin> keys ps"
  then have "map_of ps key = None" by (simp add: keys_def map_of_eq_None_iff)
  then show ?thesis by (simp add: multiplicity_def)
qed

lemma sorted_keys_gt: "sorted_wrt (<) (map fst ((k, v) # ps)) \<Longrightarrow> key \<in> keys ps \<Longrightarrow> k < key"
  by (auto simp: keys_def)

lemma sorted_head_notin: "sorted_wrt (<) (map fst ((k, v) # ps)) \<Longrightarrow> k \<notin> keys ps"
  by (auto simp: keys_def)

lemma shared_disjoint: "keys ss \<inter> keys ls = {} \<Longrightarrow> shared ss ls = (0, 0, 0, 0)"
  by (simp add: shared_def)

lemma shared_drop_short:
  assumes "k \<notin> keys ls" "k \<notin> keys ss"
  shows "shared ((k, v) # ss) ls = shared ss ls"
proof -
  have K: "keys ((k, v) # ss) \<inter> keys ls = keys ss \<inter> keys ls" using assms by auto
  have M: "\<And>key. key \<in> keys ss \<inter> keys ls \<Longrightarrow> multiplicity ((k, v) # ss) key = multiplicity ss key"
    using assms by (intro multiplicity_Cons_other) auto
  show ?thesis unfolding shared_def K by (auto intro!: sum.cong simp: M)
qed

lemma shared_drop_long:
  assumes "k \<notin> keys ss" "k \<notin> keys ls"
  shows "shared ss ((k, v) # ls) = shared ss ls"
proof -
  have K: "keys ss \<inter> keys ((k, v) # ls) = keys ss \<inter> keys ls" using assms by auto
  have M: "\<And>key. key \<in> keys ss \<inter> keys ls \<Longrightarrow> multiplicity ((k, v) # ls) key = multiplicity ls key"
    using assms by (intro multiplicity_Cons_other) auto
  show ?thesis unfolding shared_def K by (auto intro!: sum.cong simp: M)
qed

lemma shared_both:
  assumes "k \<notin> keys ss" "k \<notin> keys ls"
  shows "shared ((k, v) # ss) ((k, w) # ls) = add4 (min v w, max v w, v, w) (shared ss ls)"
proof -
  have K: "keys ((k, v) # ss) \<inter> keys ((k, w) # ls) = insert k (keys ss \<inter> keys ls)" by auto
  have N: "k \<notin> keys ss \<inter> keys ls" using assms by simp
  have M1: "\<And>key. key \<in> keys ss \<inter> keys ls \<Longrightarrow> multiplicity ((k, v) # ss) key = multiplicity ss key"
    using assms by (intro multiplicity_Cons_other) auto
  have M2: "\<And>key. key \<in> keys ss \<inter> keys ls \<Longrightarrow> multiplicity ((k, w) # ls) key = multiplicity ls key"
    using assms by (intro multiplicity_Cons_other) auto
  have F: "finite (keys ss \<inter> keys ls)" by simp
  show ?thesis unfolding shared_def K sum.insert [OF F N]
    by (auto intro!: sum.cong simp: M1 M2)
qed

lemma similarity_loop_shared:
  "sorted_wrt (<) (map fst ss) \<Longrightarrow> sorted_wrt (<) (map fst ls) \<Longrightarrow> \<forall>key \<in> keys ls. key \<le> b
   \<Longrightarrow> similarity_loop b ss ls acc = add4 acc (shared ss ls)"
proof (induction b ss ls acc rule: similarity_loop.induct)
  case (1 b ls acc)
  then show ?case by (cases acc) (simp add: shared_def)
next
  case (2 b s ss acc)
  then show ?case by (cases acc) (simp add: shared_def)
next
  case (3 b sk sv ss lk lv ls num den cs cl)
  have s_notin: "sk \<notin> keys ss" using "3.prems"(1) by (rule sorted_head_notin)
  have l_notin: "lk \<notin> keys ls" using "3.prems"(2) by (rule sorted_head_notin)
  have s_gt: "\<And>key. key \<in> keys ss \<Longrightarrow> sk < key" using "3.prems"(1) by (rule sorted_keys_gt)
  have l_gt: "\<And>key. key \<in> keys ls \<Longrightarrow> lk < key" using "3.prems"(2) by (rule sorted_keys_gt)
  have ss_sorted: "sorted_wrt (<) (map fst ss)" using "3.prems"(1) by simp
  have ls_sorted: "sorted_wrt (<) (map fst ls)" using "3.prems"(2) by simp
  have ls_bound: "\<forall>key \<in> keys ls. key \<le> b" using "3.prems"(3) by simp
  show ?case
  proof (cases "sk > b")
    case True
    have "keys ((sk, sv) # ss) \<inter> keys ((lk, lv) # ls) = {}"
    proof -
      { fix key assume a: "key \<in> keys ((sk, sv) # ss)" and c: "key \<in> keys ((lk, lv) # ls)"
        from a have "sk \<le> key" using s_gt by (force intro: less_imp_le)
        moreover from c have "key \<le> b" using "3.prems"(3) by blast
        ultimately have False using True by simp }
      then show ?thesis by blast
    qed
    then show ?thesis using True by (simp add: shared_disjoint)
  next
    case nb: False
    show ?thesis
    proof (cases "sk < lk")
      case True
      have "sk \<notin> keys ((lk, lv) # ls)" using True l_gt by (force dest: less_trans)
      then have "shared ((sk, sv) # ss) ((lk, lv) # ls) = shared ss ((lk, lv) # ls)"
        using s_notin by (rule shared_drop_short)
      moreover have "similarity_loop b ss ((lk, lv) # ls) (num, den, cs, cl)
                     = add4 (num, den, cs, cl) (shared ss ((lk, lv) # ls))"
        using "3.IH"(1) nb True ss_sorted "3.prems"(2,3) by simp
      ultimately show ?thesis using nb True by simp
    next
      case nl: False
      show ?thesis
      proof (cases "sk > lk")
        case True
        have "lk \<notin> keys ((sk, sv) # ss)" using True s_gt by (force dest: less_trans)
        then have "shared ((sk, sv) # ss) ((lk, lv) # ls) = shared ((sk, sv) # ss) ls"
          using l_notin by (rule shared_drop_long)
        moreover have "similarity_loop b ((sk, sv) # ss) ls (num, den, cs, cl)
                     = add4 (num, den, cs, cl) (shared ((sk, sv) # ss) ls)"
          using "3.IH"(2) nb nl True ls_sorted "3.prems"(1) ls_bound by simp
        ultimately show ?thesis using nb nl True by simp
      next
        case False
        then have eq: "sk = lk" using nl by simp
        have sh: "shared ((sk, sv) # ss) ((lk, lv) # ls) = add4 (min sv lv, max sv lv, sv, lv) (shared ss ls)"
          unfolding eq using s_notin l_notin eq by (intro shared_both) simp_all
        have "similarity_loop b ss ls
                (num + (if sv < lv then sv else lv), den + (if sv < lv then lv else sv), cs + sv, cl + lv)
              = add4 (num + (if sv < lv then sv else lv), den + (if sv < lv then lv else sv), cs + sv, cl + lv)
                  (shared ss ls)"
          using "3.IH"(3) nb nl False ss_sorted ls_sorted ls_bound by simp
        then show ?thesis using nb nl False sh
          by (cases "shared ss ls") (simp add: min_def max_def)
      qed
    qed
  qed
qed


lemma sum_list_snd_keys:
  "sorted_wrt (<) (map fst ps) \<Longrightarrow> sum_list (map snd ps) = (\<Sum>key \<in> keys ps. multiplicity ps key)"
proof (induction ps)
  case Nil
  then show ?case by simp
next
  case (Cons p ps)
  obtain k v where p: "p = (k, v)" by (cases p)
  have notin: "k \<notin> keys ps" using Cons.prems unfolding p by (rule sorted_head_notin)
  have "(\<Sum>key \<in> keys ps. multiplicity ((k, v) # ps) key) = (\<Sum>key \<in> keys ps. multiplicity ps key)"
    using notin by (intro sum.cong refl multiplicity_Cons_other) auto
  then show ?case using Cons notin by (simp add: p)
qed

lemma keys_le_last:
  "sorted_wrt (<) (map fst ps) \<Longrightarrow> key \<in> keys ps \<Longrightarrow> key \<le> fst (last ps)"
proof (induction ps)
  case Nil
  then show ?case by simp
next
  case (Cons p ps)
  show ?case
  proof (cases "ps = []")
    case True
    then show ?thesis using Cons.prems by (auto simp: keys_def)
  next
    case False
    then have "last ps \<in> set ps" by simp
    then have lt: "fst p < fst (last ps)" using Cons.prems(1) by simp
    show ?thesis
    proof (cases "key = fst p")
      case True
      then show ?thesis using lt False by simp
    next
      case other: False
      then have "key \<in> keys ps" using Cons.prems(2) by (auto simp: keys_def)
      then show ?thesis using Cons.IH Cons.prems(1) False by simp
    qed
  qed
qed

lemma built_bound: "built c \<Longrightarrow> \<forall>key \<in> keys (kmerSet c). key \<le> biggerKey c"
  by (cases "kmerSet c = []") (auto simp: built_def dest: keys_le_last)

lemma similarity_loop_built:
  assumes "built s" "built l"
  shows "similarity_loop (biggerKey l) (kmerSet s) (kmerSet l) (0, 0, 0, 0) = shared (kmerSet s) (kmerSet l)"
proof -
  have "similarity_loop (biggerKey l) (kmerSet s) (kmerSet l) (0, 0, 0, 0)
        = add4 (0, 0, 0, 0) (shared (kmerSet s) (kmerSet l))"
    using assms built_bound [OF assms(2)] by (intro similarity_loop_shared) (simp_all add: built_def)
  then show ?thesis by (cases "shared (kmerSet s) (kmerSet l)") simp
qed

lemma union_min_shared:
  "(\<Sum>key \<in> keys a \<union> keys b. min (multiplicity a key) (multiplicity b key))
   = (\<Sum>key \<in> keys a \<inter> keys b. min (multiplicity a key) (multiplicity b key))"
proof (rule sum.mono_neutral_right)
  show "finite (keys a \<union> keys b)" by simp
  show "keys a \<inter> keys b \<subseteq> keys a \<union> keys b" by blast
  show "\<forall>key \<in> keys a \<union> keys b - keys a \<inter> keys b. min (multiplicity a key) (multiplicity b key) = 0"
  proof
    fix key assume "key \<in> keys a \<union> keys b - keys a \<inter> keys b"
    then have "key \<notin> keys a \<or> key \<notin> keys b" by blast
    then have "multiplicity a key = 0 \<or> multiplicity b key = 0" by (auto simp: multiplicity_notin)
    then show "min (multiplicity a key) (multiplicity b key) = 0" by auto
  qed
qed

lemma sum_split_shared:
  "(\<Sum>key \<in> keys a. multiplicity a key)
   = (\<Sum>key \<in> keys a \<inter> keys b. multiplicity a key) + (\<Sum>key \<in> keys a - keys b. multiplicity a key)"
proof -
  have "keys a = (keys a \<inter> keys b) \<union> (keys a - keys b)" by blast
  then have "(\<Sum>key \<in> keys a. multiplicity a key)
     = (\<Sum>key \<in> (keys a \<inter> keys b) \<union> (keys a - keys b). multiplicity a key)" by simp
  also have "\<dots> = (\<Sum>key \<in> keys a \<inter> keys b. multiplicity a key) + (\<Sum>key \<in> keys a - keys b. multiplicity a key)"
    by (rule sum.union_disjoint) auto
  finally show ?thesis .
qed

lemma union_max_shared:
  "(\<Sum>key \<in> keys a \<union> keys b. max (multiplicity a key) (multiplicity b key))
   = (\<Sum>key \<in> keys a \<inter> keys b. max (multiplicity a key) (multiplicity b key))
     + (\<Sum>key \<in> keys a - keys b. multiplicity a key) + (\<Sum>key \<in> keys b - keys a. multiplicity b key)"
proof -
  let ?f = "\<lambda>key. max (multiplicity a key) (multiplicity b key)"
  have U: "keys a \<union> keys b = ((keys a \<inter> keys b) \<union> (keys a - keys b)) \<union> (keys b - keys a)" by blast
  have "sum ?f (keys a \<union> keys b) = sum ?f ((keys a \<inter> keys b) \<union> (keys a - keys b)) + sum ?f (keys b - keys a)"
    by (subst U, rule sum.union_disjoint) auto
  also have "sum ?f ((keys a \<inter> keys b) \<union> (keys a - keys b)) = sum ?f (keys a \<inter> keys b) + sum ?f (keys a - keys b)"
    by (rule sum.union_disjoint) auto
  also have "sum ?f (keys a - keys b) = (\<Sum>key \<in> keys a - keys b. multiplicity a key)"
    by (rule sum.cong) (auto simp: multiplicity_notin)
  also have "sum ?f (keys b - keys a) = (\<Sum>key \<in> keys b - keys a. multiplicity b key)"
    by (rule sum.cong) (auto simp: multiplicity_notin)
  finally show ?thesis .
qed

lemma shared_quotient_jaccard:
  assumes "built s" "built l"
  shows "shared_quotient s l = generalized_jaccard s l"
proof -
  let ?a = "kmerSet s" and ?b = "kmerSet l"
  have ts: "multiplicityNumber s = (\<Sum>key \<in> keys ?a. multiplicity ?a key)"
    using assms(1) by (simp add: built_def sum_list_snd_keys)
  have tl: "multiplicityNumber l = (\<Sum>key \<in> keys ?b. multiplicity ?b key)"
    using assms(2) by (simp add: built_def sum_list_snd_keys)
  have us: "multiplicityNumber s - (\<Sum>key \<in> keys ?a \<inter> keys ?b. multiplicity ?a key)
            = (\<Sum>key \<in> keys ?a - keys ?b. multiplicity ?a key)"
    unfolding ts by (subst sum_split_shared [of ?a ?b]) simp
  have ul: "multiplicityNumber l - (\<Sum>key \<in> keys ?a \<inter> keys ?b. multiplicity ?b key)
            = (\<Sum>key \<in> keys ?b - keys ?a. multiplicity ?b key)"
    unfolding tl by (subst sum_split_shared [of ?b ?a]) (simp add: Int_commute)
  show ?thesis
    unfolding shared_quotient_def generalized_jaccard_def shared_def
    by (simp add: us ul union_min_shared union_max_shared add.assoc)
qed

lemma calculateSimilarityContainers_jaccard:
  assumes "built s" "built l"
  shows "calculateSimilarityContainers s l = generalized_jaccard s l"
proof -
  have "calculateSimilarityContainers s l = shared_quotient s l"
    unfolding calculateSimilarityContainers_def shared_quotient_def similarity_divisor_def
    by (simp add: similarity_loop_built [OF assms] Let_def split: prod.splits)
  then show ?thesis using shared_quotient_jaccard [OF assms] by simp
qed

lemma generalized_jaccard_commute: "generalized_jaccard a b = generalized_jaccard b a"
  by (simp add: generalized_jaccard_def Un_commute min.commute max.commute)

lemma calculateSimilarity_jaccard:
  assumes "\<not> (alphabetLength gene1 < alphabetLength gene2 div 2 \<or> alphabetLength gene2 < alphabetLength gene1 div 2)"
    and "kmerContainer gene1 = Some c1" and "kmerContainer gene2 = Some c2"
    and "built c1" and "built c2"
  shows "calculateSimilarity gene1 gene2 = Some (generalized_jaccard c1 c2)"
proof (cases "kmersNum gene1 < kmersNum gene2")
  case True
  then show ?thesis using assms
    by (simp add: calculateSimilarity_def calculateSimilarityContainers_jaccard)
next
  case False
  then show ?thesis using assms
    by (simp add: calculateSimilarity_def calculateSimilarityContainers_jaccard
          generalized_jaccard_commute [of c2 c1])
qed

text \<open>
  C1.  For two genes that pass the length filter and whose k-mer containers are built,
  \<open>calculateSimilarity\<close> returns the generalized Jaccard index of the two containers: the
  sum of the minima over the sum of the maxima of the multiplicities, over the union of the
  keys.  That value is \<open>num / (den + unmatchedShort + unmatchedLong)\<close> with the sums taken
  over the shared keys, so leaving the loop once the short cursor's key exceeds the long
  container's largest key loses nothing.
\<close>

theorem similarity_is_generalized_jaccard:
  assumes "\<not> (alphabetLength gene1 < alphabetLength gene2 div 2 \<or> alphabetLength gene2 < alphabetLength gene1 div 2)"
    and "kmerContainer gene1 = Some c1" and "kmerContainer gene2 = Some c2"
    and "built c1" and "built c2"
  shows "calculateSimilarity gene1 gene2 = Some (generalized_jaccard c1 c2)
    \<and> generalized_jaccard c1 c2 = shared_quotient c1 c2"
  using calculateSimilarity_jaccard [OF assms] shared_quotient_jaccard [OF assms(4,5)] by simp

text \<open>Scenario S4 of the spec: \<open>ABCABC\<close> against \<open>ABCXYZ\<close> with \<open>k = 3\<close> scores 1/7.\<close>

theorem similarity_is_generalized_jaccard_witness:
  "calculateSimilarity geneABCABC geneABCXYZ = Some (Fin (Fract 1 7))
   \<and> generalized_jaccard containerABCABC containerABCXYZ = Fin (Fract 1 7)"
proof -
  have v: "calculateSimilarity geneABCABC geneABCXYZ = Some (Fin (Fract 1 7))"
    by (simp add: geneABCABC_def geneABCXYZ_def containerABCABC_def containerABCXYZ_def
          calculateSimilarity_def calculateSimilarityContainers_def similarity_divisor_def fdiv_def)
  have "calculateSimilarity geneABCABC geneABCXYZ = Some (generalized_jaccard containerABCABC containerABCXYZ)"
    using similarity_is_generalized_jaccard [of geneABCABC geneABCXYZ containerABCABC containerABCXYZ]
    by (simp add: geneABCABC_def geneABCXYZ_def containerABCABC_def containerABCXYZ_def built_def)
  then show ?thesis using v by simp
qed

section \<open>Symmetry of the similarity\<close>

text \<open>
  C10.  For two genes whose k-mer containers are built, \<open>calculateSimilarity\<close> gives the
  same result whichever gene comes first, also when the two genes have the same number of
  k-mers and the roles of shortest and longest container are swapped between the two calls.
\<close>

theorem similarity_symmetric:
  assumes "kmerContainer gene1 = Some c1" and "kmerContainer gene2 = Some c2"
    and "built c1" and "built c2"
  shows "calculateSimilarity gene1 gene2 = calculateSimilarity gene2 gene1"
proof (cases "alphabetLength gene1 < alphabetLength gene2 div 2 \<or> alphabetLength gene2 < alphabetLength gene1 div 2")
  case True
  then show ?thesis by (auto simp: calculateSimilarity_def)
next
  case False
  then have "\<not> (alphabetLength gene2 < alphabetLength gene1 div 2 \<or> alphabetLength gene1 < alphabetLength gene2 div 2)"
    by blast
  then have "calculateSimilarity gene2 gene1 = Some (generalized_jaccard c2 c1)"
    using assms calculateSimilarityContainers_jaccard generalized_jaccard_commute [of c1 c2]
    by (cases "kmersNum gene2 < kmersNum gene1") (simp_all add: calculateSimilarity_def)
  moreover have "calculateSimilarity gene1 gene2 = Some (generalized_jaccard c1 c2)"
    using False assms calculateSimilarityContainers_jaccard generalized_jaccard_commute [of c2 c1]
    by (cases "kmersNum gene1 < kmersNum gene2") (simp_all add: calculateSimilarity_def)
  ultimately show ?thesis by (simp add: generalized_jaccard_commute)
qed

text \<open>Two genes with three distinct k-mers each: the tie-breaking branch assigns the roles.\<close>

theorem similarity_symmetric_witness:
  "calculateSimilarity geneABCABC geneAAAABC = calculateSimilarity geneAAAABC geneABCABC"
  by (rule similarity_symmetric [of _ containerABCABC _ containerAAAABC])
     (simp_all add: geneABCABC_def geneAAAABC_def containerABCABC_def containerAAAABC_def built_def)

section \<open>A divisor of zero\<close>

lemma similarity_loop_num_le_den:
  "similarity_loop b ss ls (num, den, cs, cl) = (num', den', cs', cl') \<Longrightarrow> num \<le> den \<Longrightarrow> num' \<le> den'"
proof (induction b ss ls "(num, den, cs, cl)" arbitrary: num den cs cl rule: similarity_loop.induct)
  case (1 b ls)
  then show ?case by simp
next
  case (2 b s ss)
  then show ?case by simp
next
  case (3 b sk sv ss lk lv ls num den cs cl)
  show ?case
  proof (cases "sk > b")
    case True
    then show ?thesis using "3.prems" by simp
  next
    case nb: False
    show ?thesis
    proof (cases "sk < lk")
      case True
      then show ?thesis using "3.hyps"(1) "3.prems" nb by simp
    next
      case nl: False
      show ?thesis
      proof (cases "sk > lk")
        case True
        then show ?thesis using "3.hyps"(2) "3.prems" nb nl by simp
      next
        case False
        have "num + (if sv < lv then sv else lv) \<le> den + (if sv < lv then lv else sv)"
          using "3.prems"(2) by simp
        then show ?thesis using "3.hyps"(3) [OF nb nl False] "3.prems"(1) nb nl False by simp
      qed
    qed
  qed
qed

text \<open>
  C7.  When the divisor \<open>den + unmatchedShort + unmatchedLong\<close> is 0, the numerator is 0 as
  well and the division \<open>1.0*num/0\<close> of the source yields not-a-number: the result is not
  the score 0, and does not compare equal to it.
\<close>

theorem zero_divisor_gives_nan:
  assumes "similarity_divisor s l (similarity_loop (biggerKey l) (kmerSet s) (kmerSet l) (0, 0, 0, 0)) = 0"
  shows "calculateSimilarityContainers s l = NaN \<and> \<not> score_eq (calculateSimilarityContainers s l) (Fin 0)"
proof -
  obtain num den cs cl where r: "similarity_loop (biggerKey l) (kmerSet s) (kmerSet l) (0, 0, 0, 0) = (num, den, cs, cl)"
    by (metis prod_cases4)
  have "num \<le> den" using similarity_loop_num_le_den [OF r] by simp
  moreover have "den = 0" using assms by (simp add: r similarity_divisor_def)
  ultimately have "calculateSimilarityContainers s l = NaN"
    using assms by (simp add: calculateSimilarityContainers_def r fdiv_def)
  then show ?thesis by simp
qed
text \<open>
  The two genes of lengths 2 and 3 with \<open>k = 4\<close>: both pass the length filter, both
  containers are empty with total multiplicity 0.
\<close>

theorem zero_divisor_gives_nan_witness:
  "calculateSimilarityContainers containerEmpty containerEmpty = NaN
   \<and> calculateSimilarity geneShort geneShort3 = Some NaN"
proof -
  have "calculateSimilarityContainers containerEmpty containerEmpty = NaN"
    using zero_divisor_gives_nan [of containerEmpty containerEmpty]
    by (simp add: similarity_divisor_def containerEmpty_def)
  then show ?thesis by (simp add: calculateSimilarity_def geneShort_def geneShort3_def)
qed

section \<open>Sequences shorter than \<open>k\<close> in \<open>KmersHandler::calculateKmers\<close>\<close>

declare calculateKmers_loop.simps [simp del]

lemma totalMultiplicity_append [simp]:
  "totalMultiplicity (d @ [(a, idxs)]) = totalMultiplicity d + length idxs"
  by (simp add: totalMultiplicity_def)

lemma totalMultiplicity_addIndex: "totalMultiplicity d \<le> totalMultiplicity (addIndex addr i d)"
  unfolding totalMultiplicity_def addIndex_def
  by (induction d) (auto split: prod.splits)

lemma body_grows:
  "totalMultiplicity (dictionary st) \<le> totalMultiplicity (dictionary (calculateKmers_body ss i st))"
  by (auto simp: calculateKmers_body_def totalMultiplicity_addIndex split: option.splits)

lemma loop_grows:
  "totalMultiplicity (dictionary st) \<le> totalMultiplicity (dictionary (fst (calculateKmers_loop alphabet k n i st)))"
proof (induction alphabet k n i st rule: calculateKmers_loop.induct)
  case (1 alphabet k n i st)
  show ?case
  proof (cases "i < n \<and> \<not> length alphabet < i")
    case True
    then have eq: "calculateKmers_loop alphabet k n i st
        = calculateKmers_loop alphabet k n (i + 1) (calculateKmers_body (take k (drop i alphabet)) i st)"
      by (subst calculateKmers_loop.simps) simp
    have "totalMultiplicity (dictionary (calculateKmers_body (take k (drop i alphabet)) i st))
      \<le> totalMultiplicity (dictionary (fst (calculateKmers_loop alphabet k n i st)))"
      unfolding eq using "1.IH" True by simp
    then show ?thesis using body_grows [of st "take k (drop i alphabet)" i] by simp
  next
    case False
    then show ?thesis by (subst calculateKmers_loop.simps) auto
  qed
qed

lemma loop_throws:
  "length alphabet + 1 < n \<Longrightarrow> i \<le> length alphabet + 1
   \<Longrightarrow> snd (calculateKmers_loop alphabet k n i st) = Some OutOfRange"
proof (induction alphabet k n i st rule: calculateKmers_loop.induct)
  case (1 alphabet k n i st)
  show ?case
  proof (cases "length alphabet < i")
    case True
    then show ?thesis using "1.prems" by (subst calculateKmers_loop.simps) simp
  next
    case False
    then show ?thesis using "1.IH" "1.prems" by (subst calculateKmers_loop.simps) simp
  qed
qed

lemma first_step:
  "0 < n \<Longrightarrow> calculateKmers_loop alphabet k n 0 \<lparr>currentKmers = [], dictionary = []\<rparr>
    = calculateKmers_loop alphabet k n 1 \<lparr>currentKmers = [(take k alphabet, 0)], dictionary = [(0, [0])]\<rparr>"
  by (subst calculateKmers_loop.simps) (simp add: calculateKmers_body_def)

text \<open>When the sequence is exactly one symbol short, \<open>kmersNum\<close> is 0 and nothing is inserted.\<close>

lemma calculateKmers_boundary: "k < 2 ^ 32 \<Longrightarrow> length alphabet + 1 = k \<Longrightarrow> calculateKmers k alphabet = ([], None)"
proof -
  assume a: "k < 2 ^ 32" "length alphabet + 1 = k"
  then have "length alphabet + (2 ^ 64 - k) + 1 = (2 ^ 64 :: nat)" by simp
  then have "(length alphabet + (2 ^ 64 - k) + 1) mod 2 ^ 64 = (0 :: nat)" by simp
  then show ?thesis by (simp add: calculateKmers_def calculateKmers_loop.simps)
qed

text \<open>
  C8.  For a sequence more than one symbol shorter than \<open>k\<close>, the subtraction
  \<open>alphabet_.length() - k_ + 1\<close> wraps around to a number larger than the length; the loop
  then inserts an entry for the position 0 (and goes on through the truncated substrings)
  until \<open>substr\<close> throws \<open>std::out_of_range\<close> at the position after the end.  The
  dictionary is not empty and its total multiplicity is not 0.
\<close>

theorem short_sequence_throws:
  assumes "k < 2 ^ 32" and "length alphabet + 1 < k"
  shows "snd (calculateKmers k alphabet) = Some OutOfRange
       \<and> fst (calculateKmers k alphabet) \<noteq> []
       \<and> 0 < totalMultiplicity (fst (calculateKmers k alphabet))"
proof -
  define n :: nat where "n = (length alphabet + (2 ^ 64 - k) + 1) mod 2 ^ 64"
  define r where "r = calculateKmers_loop alphabet k n 0 \<lparr>currentKmers = [], dictionary = []\<rparr>"
  have "length alphabet + (2 ^ 64 - k) + 1 < (2 ^ 64 :: nat)" using assms by simp
  then have n: "n = length alphabet + (2 ^ 64 - k) + 1" unfolding n_def by simp
  then have big: "length alphabet + 1 < n" using assms by simp
  have thr: "snd r = Some OutOfRange"
    unfolding r_def using big by (intro loop_throws) simp_all
  have "totalMultiplicity (dictionary \<lparr>currentKmers = [(take k alphabet, 0)], dictionary = [(0, [0])]\<rparr>)
      \<le> totalMultiplicity (dictionary (fst (calculateKmers_loop alphabet k n 1
            \<lparr>currentKmers = [(take k alphabet, 0)], dictionary = [(0, [0])]\<rparr>)))"
    by (rule loop_grows)
  then have tm: "0 < totalMultiplicity (dictionary (fst r))"
    unfolding r_def using big by (simp add: first_step totalMultiplicity_def)
  then have ne: "dictionary (fst r) \<noteq> []"
    by (auto simp: totalMultiplicity_def)
  have "calculateKmers k alphabet = (dictionary (fst r), snd r)"
    by (simp add: calculateKmers_def Let_def r_def n_def split: prod.splits)
  then show ?thesis using thr tm ne by simp
qed

text \<open>The sequence \<open>A\<close> with \<open>k = 3\<close>: entries for the positions 0 and 1, then the exception.\<close>

theorem short_sequence_throws_witness:
  "calculateKmers 3 ''A'' = ([(0, [0]), (1, [1])], Some OutOfRange)
   \<and> 0 < totalMultiplicity (fst (calculateKmers 3 ''A''))"
proof -
  have "calculateKmers 3 ''A'' = ([(0, [0]), (1, [1])], Some OutOfRange)"
    by (simp add: calculateKmers_def calculateKmers_loop.simps calculateKmers_body_def)
  moreover have "0 < totalMultiplicity (fst (calculateKmers 3 ''A''))"
    using short_sequence_throws [of 3 "''A''"] by simp
  ultimately show ?thesis by simp
qed

section \<open>Comparing scores\<close>

lemma score_eq_imp_eq: "score_eq a b \<Longrightarrow> a = b"
  by (cases a; cases b) auto

lemma score_eq_refl: "a \<noteq> NaN \<Longrightarrow> score_eq a a"
  by (cases a) auto

lemma score_less_irrefl [simp]: "\<not> score_less a a"
  by (cases a) auto

lemma score_less_asym: "score_less a b \<Longrightarrow> \<not> score_less b a"
  by (cases a; cases b) auto

lemma score_less_trans: "score_less a b \<Longrightarrow> score_less b c \<Longrightarrow> score_less a c"
  by (cases a; cases b; cases c) auto

lemma score_less_not_nan: "score_less a b \<Longrightarrow> a \<noteq> NaN \<and> b \<noteq> NaN"
  by (cases a; cases b) auto

lemma score_total: "a \<noteq> NaN \<Longrightarrow> b \<noteq> NaN \<Longrightarrow> score_less a b \<or> score_eq a b \<or> score_less b a"
  by (cases a; cases b) auto

lemma score_nonneg_less:
  "\<not> score_less b (Fin 0) \<Longrightarrow> b \<noteq> NaN \<Longrightarrow> score_less b x \<Longrightarrow> score_less (Fin 0) x"
  by (cases b; cases x) auto

lemma score_le_less_trans: "\<not> score_less b a \<Longrightarrow> score_less c a \<Longrightarrow> b \<noteq> NaN \<Longrightarrow> score_less c b"
  by (cases a; cases b; cases c) auto

section \<open>The candidate set of a row\<close>

lemma cand_inv_new: "cand_inv f {} newBBHCandidate"
  by (simp add: cand_inv_def newBBHCandidate_def)

lemma cand_inv_cong: "cand_inv f S cand \<Longrightarrow> \<forall>c \<in> S. f' c = f c \<Longrightarrow> cand_inv f' S cand"
  unfolding cand_inv_def by (auto split: if_splits)

lemma cand_inv_step:
  assumes "cand_inv f S cand"
  shows "cand_inv f (insert c S) (candidate_update (f c) c cand)"
proof (cases "score_less (best cand) (f c)")
  case True
  then have nn: "f c \<noteq> NaN" by (auto dest: score_less_not_nan)
  have pos: "score_less (Fin 0) (f c)"
    using assms True unfolding cand_inv_def by (auto intro: score_nonneg_less)
  have ub: "\<forall>c' \<in> insert c S. \<not> score_less (f c) (f c')"
    using assms True unfolding cand_inv_def by (auto dest: score_less_trans)
  have "\<And>x. x \<in> S \<Longrightarrow> \<not> score_eq (f x) (f c)"
  proof
    fix x assume "x \<in> S" "score_eq (f x) (f c)"
    then have "f x = f c" "\<not> score_less (best cand) (f x)"
      using assms unfolding cand_inv_def by (auto dest: score_eq_imp_eq)
    then show False using True by simp
  qed
  then have "{c' \<in> insert c S. score_eq (f c') (f c)} = {c}"
    using nn by (auto simp: score_eq_refl)
  moreover have "\<not> score_less (f c) (Fin 0)" using pos by (rule score_less_asym)
  ultimately show ?thesis using True nn pos ub
    by (simp add: cand_inv_def candidate_update_def)
next
  case nl: False
  show ?thesis
  proof (cases "score_eq (f c) (best cand) \<and> score_less (Fin 0) (best cand)")
    case True
    then show ?thesis using assms nl
      unfolding cand_inv_def candidate_update_def by (auto simp: distinct_insert List.insert_def)
  next
    case False
    then show ?thesis using assms nl
      unfolding cand_inv_def candidate_update_def by (auto split: if_splits)
  qed
qed

lemma cand_inv_positive:
  assumes "cand_inv f S cand" "c \<in> S" "score_less (Fin 0) (f c)"
  shows "score_less (Fin 0) (best cand)"
proof -
  have "\<not> score_less (best cand) (f c)" "best cand \<noteq> NaN"
    using assms(1,2) unfolding cand_inv_def by auto
  then show ?thesis using assms(3) score_le_less_trans by blast
qed

lemma cand_inv_attained:
  assumes "cand_inv f S cand" "score_less (Fin 0) (best cand)"
  shows "\<exists>c \<in> S. score_eq (f c) (best cand)"
proof -
  from assms have "set (columns cand) = {c \<in> S. score_eq (f c) (best cand)}" "columns cand \<noteq> []"
    unfolding cand_inv_def by auto
  then obtain c where "c \<in> {c \<in> S. score_eq (f c) (best cand)}"
    by (metis last_in_set)
  then show ?thesis by blast
qed

lemma cand_inv_member:
  assumes "cand_inv f S cand" "c \<in> set (columns cand)"
  shows "c \<in> S \<and> score_eq (f c) (best cand) \<and> score_less (Fin 0) (best cand)"
  using assms unfolding cand_inv_def by (auto split: if_splits)

section \<open>The score matrix and the candidates container\<close>

lemma flat_index_bound: "r < R \<Longrightarrow> c < C \<Longrightarrow> r * C + c < R * (C::nat)"
proof -
  assume a: "r < R" "c < C"
  then have "r * C + c < (r + 1) * C" by simp
  also have "\<dots> \<le> R * C" using a by (intro mult_le_mono1) simp
  finally show ?thesis .
qed

lemma flat_index_inj:
  assumes "c < C" "c' < C" "r * C + c = r' * C + (c'::nat)"
  shows "r = r' \<and> c = c'"
proof -
  have lt: "\<And>a b x y. a < b \<Longrightarrow> x < C \<Longrightarrow> a * C + x < b * C + (y::nat)"
  proof -
    fix a b x y :: nat assume "a < b" "x < C"
    then have "a * C + x < (a + 1) * C" by simp
    also have "\<dots> \<le> b * C" using \<open>a < b\<close> by (intro mult_le_mono1) simp
    finally show "a * C + x < b * C + y" by simp
  qed
  have "\<not> r < r'" using lt [of r r' c c'] assms by auto
  moreover have "\<not> r' < r" using lt [of r' r c' c] assms by auto
  ultimately have "r = r'" by simp
  then show ?thesis using assms(3) by simp
qed

lemma get_set_same:
  "row * cols sc + col < length (cells sc) \<Longrightarrow> getScoreAt (setScoreAt sc row col v) row col = v"
  by (simp add: getScoreAt_def setScoreAt_def)

lemma get_set_other:
  "col < cols sc \<Longrightarrow> col' < cols sc \<Longrightarrow> row' \<noteq> row \<or> col' \<noteq> col
   \<Longrightarrow> getScoreAt (setScoreAt sc row col v) row' col' = getScoreAt sc row' col'"
proof -
  assume a: "col < cols sc" "col' < cols sc" "row' \<noteq> row \<or> col' \<noteq> col"
  have "row * cols sc + col \<noteq> row' * cols sc + col'"
    using flat_index_inj [of col "cols sc" col' row row'] a by blast
  then show ?thesis by (simp add: getScoreAt_def setScoreAt_def)
qed

lemma cols_setScoreAt [simp]: "cols (setScoreAt sc row col v) = cols sc"
  by (simp add: setScoreAt_def)

lemma length_cells_setScoreAt [simp]: "length (cells (setScoreAt sc row col v)) = length (cells sc)"
  by (simp add: setScoreAt_def)

lemma get_new: "r < R \<Longrightarrow> c < C \<Longrightarrow> getScoreAt (newScoresContainer R C) r c = Fin 0"
  by (simp add: getScoreAt_def newScoresContainer_def flat_index_bound)

lemma candidates_addCandidate_same:
  "r < length (candidates b) \<Longrightarrow> candidates (addCandidate b r v c) ! r = candidate_update v c (candidates b ! r)"
  by (simp add: addCandidate_def)

lemma candidates_addCandidate_other:
  "r' \<noteq> r \<Longrightarrow> candidates (addCandidate b r v c) ! r' = candidates b ! r'"
  by (simp add: addCandidate_def)

lemma length_candidates_addCandidate [simp]:
  "length (candidates (addCandidate b r v c)) = length (candidates b)"
  by (simp add: addCandidate_def)

lemma capacity_addCandidate [simp]: "capacity (addCandidate b r v c) = capacity b"
  by (simp add: addCandidate_def)

section \<open>What the row phase establishes\<close>

lemma row_step_Some:
  "row_step g colGenes r x (b, s) = Some st
   \<Longrightarrow> \<exists>v. calculateSimilarity g (colGenes ! x) = Some v \<and> st = (addCandidate b r v x, setScoreAt s r x v)"
  by (auto simp: row_step_def split: option.splits)

lemma frame_refl: "frame {} {} st st"
  by (simp add: frame_def)

lemma frame_trans:
  assumes "frame R1 W1 st st1" "frame R2 W2 st1 st2"
  shows "frame (R1 \<union> R2) (W1 \<union> W2) st st2"
proof -
  have c: "cols (snd st1) = cols (snd st)" using assms(1) by (simp add: frame_def)
  have a: "\<And>r. r \<notin> R1 \<union> R2 \<Longrightarrow> candidates (fst st2) ! r = candidates (fst st) ! r"
  proof -
    fix r assume "r \<notin> R1 \<union> R2"
    then have "r \<notin> R1" "r \<notin> R2" by auto
    then have "candidates (fst st2) ! r = candidates (fst st1) ! r" "candidates (fst st1) ! r = candidates (fst st) ! r"
      using assms unfolding frame_def by blast+
    then show "candidates (fst st2) ! r = candidates (fst st) ! r" by simp
  qed
  have b: "\<And>r x. x < cols (snd st) \<Longrightarrow> (r, x) \<notin> W1 \<union> W2 \<Longrightarrow> getScoreAt (snd st2) r x = getScoreAt (snd st) r x"
  proof -
    fix r x assume lt: "x < cols (snd st)" and "(r, x) \<notin> W1 \<union> W2"
    then have n: "(r, x) \<notin> W1" "(r, x) \<notin> W2" by auto
    have "getScoreAt (snd st2) r x = getScoreAt (snd st1) r x"
      using assms(2) lt n(2) c unfolding frame_def by metis
    moreover have "getScoreAt (snd st1) r x = getScoreAt (snd st) r x"
      using assms(1) lt n(1) unfolding frame_def by metis
    ultimately show "getScoreAt (snd st2) r x = getScoreAt (snd st) r x" by simp
  qed
  have s: "length (candidates (fst st2)) = length (candidates (fst st))" "capacity (fst st2) = capacity (fst st)"
     "cols (snd st2) = cols (snd st)" "length (cells (snd st2)) = length (cells (snd st))"
    using assms unfolding frame_def by simp_all
  show ?thesis unfolding frame_def using a b s by blast
qed

lemma frame_mono: "frame Rs W st st' \<Longrightarrow> Rs \<subseteq> Rs' \<Longrightarrow> W \<subseteq> W' \<Longrightarrow> frame Rs' W' st st'"
  unfolding frame_def by blast

lemma frame_sized: "frame Rs W st st' \<Longrightarrow> sized R C st \<Longrightarrow> sized R C st'"
  unfolding frame_def sized_def by simp

lemma frame_row_step:
  assumes "row_step g colGenes r x st = Some st'" "x < cols (snd st)"
  shows "frame {r} {(r, x)} st st'"
proof -
  obtain b s where st: "st = (b, s)" by (cases st)
  from row_step_Some [OF assms(1) [unfolded st]] obtain v where
    st': "st' = (addCandidate b r v x, setScoreAt s r x v)" by blast
  have "\<And>r' c. c < cols s \<Longrightarrow> (r', c) \<noteq> (r, x) \<Longrightarrow> getScoreAt (setScoreAt s r x v) r' c = getScoreAt s r' c"
    using assms(2) st by (intro get_set_other) auto
  then show ?thesis unfolding frame_def st st'
    by (simp add: candidates_addCandidate_other)
qed


lemma frame_row_task:
  "foldM (row_step g colGenes r) cs st = Some st' \<Longrightarrow> \<forall>c \<in> set cs. c < cols (snd st)
   \<Longrightarrow> frame {r} ({r} \<times> set cs) st st'"
proof (induction cs arbitrary: st)
  case Nil
  then show ?case using frame_refl [of st] by (auto intro: frame_mono)
next
  case (Cons x cs)
  from Cons.prems(1) obtain st1 where st1: "row_step g colGenes r x st = Some st1"
    and rest: "foldM (row_step g colGenes r) cs st1 = Some st'"
    by (auto split: option.splits)
  have f1: "frame {r} {(r, x)} st st1" using st1 Cons.prems(2) by (intro frame_row_step) simp_all
  then have "cols (snd st1) = cols (snd st)" by (simp add: frame_def)
  then have "\<forall>c \<in> set cs. c < cols (snd st1)" using Cons.prems(2) by simp
  then have "frame {r} ({r} \<times> set cs) st1 st'" using rest by (intro Cons.IH)
  then have "frame ({r} \<union> {r}) ({(r, x)} \<union> {r} \<times> set cs) st st'" using f1 by (intro frame_trans)
  then show ?case by (rule frame_mono) auto
qed

lemma frame_rows:
  "foldM (\<lambda>row. foldM (row_step (rowGenes ! row) colGenes row) (colsOf row)) rs st = Some st'
   \<Longrightarrow> \<forall>r \<in> set rs. \<forall>c \<in> set (colsOf r). c < cols (snd st)
   \<Longrightarrow> frame (set rs) {(r, c). r \<in> set rs \<and> c \<in> set (colsOf r)} st st'"
proof (induction rs arbitrary: st)
  case Nil
  then show ?case using frame_refl [of st] by (auto intro: frame_mono)
next
  case (Cons x rs)
  from Cons.prems(1) obtain st1 where st1: "foldM (row_step (rowGenes ! x) colGenes x) (colsOf x) st = Some st1"
    and rest: "foldM (\<lambda>row. foldM (row_step (rowGenes ! row) colGenes row) (colsOf row)) rs st1 = Some st'"
    by (auto split: option.splits)
  have f1: "frame {x} ({x} \<times> set (colsOf x)) st st1" using st1 Cons.prems(2) by (intro frame_row_task) simp_all
  then have "cols (snd st1) = cols (snd st)" by (simp add: frame_def)
  then have "\<forall>r \<in> set rs. \<forall>c \<in> set (colsOf r). c < cols (snd st1)" using Cons.prems(2) by simp
  then have "frame (set rs) {(r, c). r \<in> set rs \<and> c \<in> set (colsOf r)} st1 st'" using rest by (intro Cons.IH)
  then have "frame ({x} \<union> set rs) ({x} \<times> set (colsOf x) \<union> {(r, c). r \<in> set rs \<and> c \<in> set (colsOf r)}) st st'"
    using f1 by (intro frame_trans)
  then show ?case by (rule frame_mono) auto
qed

lemma row_ok_frame:
  assumes "row_ok g colGenes r C st" "frame Rs W st st'" "r \<notin> Rs" "\<forall>c \<in> C. (r, c) \<notin> W"
    and "\<forall>c \<in> C. c < cols (snd st)"
  shows "row_ok g colGenes r C st'"
proof -
  have c: "candidates (fst st') ! r = candidates (fst st) ! r" using assms(2,3) unfolding frame_def by blast
  have g: "\<forall>c \<in> C. getScoreAt (snd st') r c = getScoreAt (snd st) r c"
    using assms(2,4,5) unfolding frame_def by blast
  have "cand_inv (getScoreAt (snd st) r) C (candidates (fst st) ! r)" using assms(1) by (simp add: row_ok_def)
  then have "cand_inv (getScoreAt (snd st') r) C (candidates (fst st) ! r)" using g by (rule cand_inv_cong)
  moreover have "\<forall>c \<in> C. calculateSimilarity g (colGenes ! c) = Some (getScoreAt (snd st') r c)"
    using assms(1) g by (simp add: row_ok_def)
  ultimately show ?thesis unfolding row_ok_def c by simp
qed

lemma row_ok_step:
  assumes "row_ok g colGenes r C st" "row_step g colGenes r x st = Some st'"
    and "x \<notin> C" "x < cols (snd st)" "\<forall>c \<in> C. c < cols (snd st)"
    and "r < length (candidates (fst st))" "(r + 1) * cols (snd st) \<le> length (cells (snd st))"
  shows "row_ok g colGenes r (insert x C) st'"
proof -
  obtain b s where st: "st = (b, s)" by (cases st)
  from row_step_Some [OF assms(2) [unfolded st]] obtain v where
    v: "calculateSimilarity g (colGenes ! x) = Some v"
    and st': "st' = (addCandidate b r v x, setScoreAt s r x v)" by blast
  have "r * cols s + x < (r + 1) * cols s" using assms(4) st by simp
  then have idx: "r * cols s + x < length (cells s)" using assms(7) st by simp
  have g1: "getScoreAt (setScoreAt s r x v) r x = v" using idx by (rule get_set_same)
  have same: "\<forall>c \<in> C. getScoreAt (setScoreAt s r x v) r c = getScoreAt s r c"
  proof
    fix c assume "c \<in> C"
    then have "c < cols s" "c \<noteq> x" using assms(3,5) st by auto
    then show "getScoreAt (setScoreAt s r x v) r c = getScoreAt s r c"
      using assms(4) st by (intro get_set_other) auto
  qed
  have c1: "candidates (addCandidate b r v x) ! r
            = candidate_update (getScoreAt (setScoreAt s r x v) r x) x (candidates b ! r)"
    unfolding g1 using assms(6) st by (intro candidates_addCandidate_same) simp
  have "cand_inv (getScoreAt s r) C (candidates b ! r)" using assms(1) st by (simp add: row_ok_def)
  then have "cand_inv (getScoreAt (setScoreAt s r x v) r) C (candidates b ! r)"
    using same by (rule cand_inv_cong)
  then have inv: "cand_inv (getScoreAt (setScoreAt s r x v) r) (insert x C) (candidates (addCandidate b r v x) ! r)"
    unfolding c1 by (rule cand_inv_step)
  have "\<forall>c \<in> C. calculateSimilarity g (colGenes ! c) = Some (getScoreAt (setScoreAt s r x v) r c)"
    using assms(1) same st by (simp add: row_ok_def)
  then have "\<forall>c \<in> insert x C. calculateSimilarity g (colGenes ! c) = Some (getScoreAt (setScoreAt s r x v) r c)"
    using v g1 by simp
  then show ?thesis unfolding row_ok_def st' using inv by simp
qed

lemma row_ok_task:
  "foldM (row_step g colGenes r) cs st = Some st' \<Longrightarrow> row_ok g colGenes r C st
   \<Longrightarrow> distinct cs \<Longrightarrow> C \<inter> set cs = {} \<Longrightarrow> \<forall>c \<in> C \<union> set cs. c < cols (snd st)
   \<Longrightarrow> r < length (candidates (fst st)) \<Longrightarrow> (r + 1) * cols (snd st) \<le> length (cells (snd st))
   \<Longrightarrow> row_ok g colGenes r (C \<union> set cs) st'"
proof (induction cs arbitrary: st C)
  case Nil
  then show ?case by simp
next
  case (Cons x cs)
  from Cons.prems(1) obtain st1 where st1: "row_step g colGenes r x st = Some st1"
    and rest: "foldM (row_step g colGenes r) cs st1 = Some st'"
    by (auto split: option.splits)
  have x: "x \<notin> C" "x < cols (snd st)" "x \<notin> set cs" using Cons.prems(3,4,5) by auto
  have Cb: "\<forall>c \<in> C. c < cols (snd st)" using Cons.prems(5) by simp
  have ok1: "row_ok g colGenes r (insert x C) st1"
    using Cons.prems(2) st1 x(1,2) Cb Cons.prems(6,7) by (rule row_ok_step)
  have f1: "frame {r} {(r, x)} st st1" using st1 x(2) by (rule frame_row_step)
  then have eqs: "cols (snd st1) = cols (snd st)" "length (cells (snd st1)) = length (cells (snd st))"
    "length (candidates (fst st1)) = length (candidates (fst st))" by (simp_all add: frame_def)
  have "row_ok g colGenes r (insert x C \<union> set cs) st'"
  proof (rule Cons.IH [OF rest ok1])
    show "distinct cs" using Cons.prems(3) by simp
    show "insert x C \<inter> set cs = {}" using Cons.prems(4) x(3) by auto
    show "\<forall>c \<in> insert x C \<union> set cs. c < cols (snd st1)" using Cons.prems(5) eqs by simp
    show "r < length (candidates (fst st1))" using Cons.prems(6) eqs by simp
    show "(r + 1) * cols (snd st1) \<le> length (cells (snd st1))" using Cons.prems(7) eqs by simp
  qed
  moreover have "insert x C \<union> set cs = C \<union> set (x # cs)" by auto
  ultimately show ?case by simp
qed

lemma row_ok_empty: "candidates (fst st) ! r = newBBHCandidate \<Longrightarrow> row_ok g colGenes r {} st"
  by (simp add: row_ok_def cand_inv_new)

lemma sized_row_bound: "sized R C st \<Longrightarrow> r < R \<Longrightarrow> (r + 1) * cols (snd st) \<le> length (cells (snd st))"
proof -
  assume a: "sized R C st" "r < R"
  then have "r + 1 \<le> R" by simp
  then have "(r + 1) * C \<le> R * C" by (rule mult_le_mono1)
  then show ?thesis using a(1) by (simp add: sized_def)
qed

lemma rows_ok:
  "foldM (\<lambda>row. foldM (row_step (rowGenes ! row) colGenes row) (colsOf row)) rs st = Some st'
   \<Longrightarrow> distinct rs \<Longrightarrow> sized R C st \<Longrightarrow> \<forall>r \<in> set rs. r < R
   \<Longrightarrow> \<forall>r \<in> set rs. distinct (colsOf r) \<and> (\<forall>c \<in> set (colsOf r). c < C)
   \<Longrightarrow> \<forall>r \<in> set rs. candidates (fst st) ! r = newBBHCandidate
   \<Longrightarrow> \<forall>r \<in> set rs. row_ok (rowGenes ! r) colGenes r (set (colsOf r)) st'"
proof (induction rs arbitrary: st)
  case Nil
  then show ?case by simp
next
  case (Cons x rs)
  from Cons.prems(1) obtain st1 where st1: "foldM (row_step (rowGenes ! x) colGenes x) (colsOf x) st = Some st1"
    and rest: "foldM (\<lambda>row. foldM (row_step (rowGenes ! row) colGenes row) (colsOf row)) rs st1 = Some st'"
    by (auto split: option.splits)
  have cols: "cols (snd st) = C" and len: "length (candidates (fst st)) = R"
    using Cons.prems(3) by (simp_all add: sized_def)
  have xnot: "x \<notin> set rs" using Cons.prems(2) by simp
  have xb: "\<forall>c \<in> set (colsOf x). c < cols (snd st)" using Cons.prems(5) cols by simp
  have f1: "frame {x} ({x} \<times> set (colsOf x)) st st1" using st1 xb by (rule frame_row_task)
  have sz1: "sized R C st1" using f1 Cons.prems(3) by (rule frame_sized)
  then have cols1: "cols (snd st1) = C" by (simp add: sized_def)
  have "row_ok (rowGenes ! x) colGenes x ({} \<union> set (colsOf x)) st1"
  proof (rule row_ok_task [OF st1])
    show "row_ok (rowGenes ! x) colGenes x {} st" using Cons.prems(6) by (intro row_ok_empty) simp
    show "distinct (colsOf x)" using Cons.prems(5) by simp
    show "{} \<inter> set (colsOf x) = {}" by simp
    show "\<forall>c \<in> {} \<union> set (colsOf x). c < cols (snd st)" using xb by simp
    show "x < length (candidates (fst st))" using Cons.prems(4) len by simp
    show "(x + 1) * cols (snd st) \<le> length (cells (snd st))"
      using Cons.prems(3,4) by (intro sized_row_bound [of R C]) simp_all
  qed
  then have okx1: "row_ok (rowGenes ! x) colGenes x (set (colsOf x)) st1" by simp
  have rb: "\<forall>r \<in> set rs. \<forall>c \<in> set (colsOf r). c < cols (snd st1)" using Cons.prems(5) cols1 by simp
  have f2: "frame (set rs) {(r, c). r \<in> set rs \<and> c \<in> set (colsOf r)} st1 st'"
    using rest rb by (rule frame_rows)
  have okx: "row_ok (rowGenes ! x) colGenes x (set (colsOf x)) st'"
    using okx1 f2 xnot
  proof (rule row_ok_frame)
    show "\<forall>c \<in> set (colsOf x). (x, c) \<notin> {(r, c). r \<in> set rs \<and> c \<in> set (colsOf r)}" using xnot by simp
    show "\<forall>c \<in> set (colsOf x). c < cols (snd st1)" using xb cols cols1 by simp
  qed
  have new1: "\<forall>r \<in> set rs. candidates (fst st1) ! r = newBBHCandidate"
  proof
    fix r assume r: "r \<in> set rs"
    then have "r \<notin> {x}" using xnot by auto
    then have "candidates (fst st1) ! r = candidates (fst st) ! r" using f1 unfolding frame_def by blast
    then show "candidates (fst st1) ! r = newBBHCandidate" using Cons.prems(6) r by simp
  qed
  have "\<forall>r \<in> set rs. row_ok (rowGenes ! r) colGenes r (set (colsOf r)) st'"
  proof (rule Cons.IH [OF rest _ sz1 _ _ new1])
    show "distinct rs" using Cons.prems(2) by simp
    show "\<forall>r \<in> set rs. r < R" using Cons.prems(4) by simp
    show "\<forall>r \<in> set rs. distinct (colsOf r) \<and> (\<forall>c \<in> set (colsOf r). c < C)" using Cons.prems(5) by simp
  qed
  then show ?case using okx by simp
qed

lemma new_sized: "sized R C (newBBHCandidatesContainer R T, newScoresContainer R C)"
  by (simp add: sized_def newBBHCandidatesContainer_def newScoresContainer_def)

lemma new_candidates: "r < R \<Longrightarrow> candidates (newBBHCandidatesContainer R T) ! r = newBBHCandidate"
  by (simp add: newBBHCandidatesContainer_def)

lemma calculateRow_ok:
  assumes "calculateRow rowGenes colGenes
             (newBBHCandidatesContainer (length rowGenes) (length colGenes),
              newScoresContainer (length rowGenes) (length colGenes)) = Some st'"
  shows "\<forall>r < length rowGenes. row_ok (rowGenes ! r) colGenes r {c. c < length colGenes} st'"
proof -
  let ?st = "(newBBHCandidatesContainer (length rowGenes) (length colGenes),
              newScoresContainer (length rowGenes) (length colGenes))"
  have "\<forall>r \<in> set [0..<length rowGenes].
          row_ok (rowGenes ! r) colGenes r (set ((\<lambda>row. [0..<length colGenes]) r)) st'"
  proof (rule rows_ok [where R = "length rowGenes" and C = "length colGenes" and st = ?st])
    show "foldM (\<lambda>row. foldM (row_step (rowGenes ! row) colGenes row) [0..<length colGenes])
            [0..<length rowGenes] ?st = Some st'"
      using assms by (simp add: calculateRow_def)
    show "sized (length rowGenes) (length colGenes) ?st" by (rule new_sized)
    show "\<forall>r \<in> set [0..<length rowGenes]. candidates (fst ?st) ! r = newBBHCandidate"
      by (simp add: new_candidates)
  qed simp_all
  moreover have "set [0..<length colGenes] = {c. c < length colGenes}" by auto
  ultimately show ?thesis by simp
qed

lemma calculateRow_frame:
  assumes "calculateRow rowGenes colGenes st = Some st'" "cols (snd st) = length colGenes"
  shows "frame (set [0..<length rowGenes])
           {(r, c). r \<in> set [0..<length rowGenes] \<and> c \<in> set [0..<length colGenes]} st st'"
  using assms by (intro frame_rows) (simp_all add: calculateRow_def)

lemma calculateRowSame_ok:
  assumes "calculateRowSame genes
             (newBBHCandidatesContainer (length genes) (length genes),
              newScoresContainer (length genes) (length genes)) = Some st'"
  shows "\<forall>r < length genes. row_ok (genes ! r) genes r {c. r < c \<and> c < length genes} st'"
proof -
  let ?st = "(newBBHCandidatesContainer (length genes) (length genes),
              newScoresContainer (length genes) (length genes))"
  have "\<forall>r \<in> set [0..<length genes].
          row_ok (genes ! r) genes r (set ((\<lambda>row. [row + 1..<length genes]) r)) st'"
  proof (rule rows_ok [where R = "length genes" and C = "length genes" and st = ?st])
    show "foldM (\<lambda>row. foldM (row_step (genes ! row) genes row) [row + 1..<length genes])
            [0..<length genes] ?st = Some st'"
      using assms by (simp add: calculateRowSame_def)
    show "sized (length genes) (length genes) ?st" by (rule new_sized)
    show "\<forall>r \<in> set [0..<length genes]. candidates (fst ?st) ! r = newBBHCandidate"
      by (simp add: new_candidates)
  qed simp_all
  moreover have "\<And>r. set [r + 1..<length genes] = {c. r < c \<and> c < length genes}" by auto
  ultimately show ?thesis by simp
qed

lemma calculateRowSame_frame:
  assumes "calculateRowSame genes st = Some st'" "cols (snd st) = length genes"
  shows "frame (set [0..<length genes])
           {(r, c). r \<in> set [0..<length genes] \<and> c \<in> set [r + 1..<length genes]} st st'"
  using assms by (intro frame_rows) (simp_all add: calculateRowSame_def)

lemma calculateRowSame_lower_zero:
  assumes "calculateRowSame genes
             (newBBHCandidatesContainer (length genes) (length genes),
              newScoresContainer (length genes) (length genes)) = Some st'"
    and "r < length genes" "c \<le> r"
  shows "getScoreAt (snd st') r c = Fin 0"
proof -
  let ?st = "(newBBHCandidatesContainer (length genes) (length genes),
              newScoresContainer (length genes) (length genes))"
  have c: "cols (snd ?st) = length genes" by (simp add: newScoresContainer_def)
  have f: "frame (set [0..<length genes])
           {(r, c). r \<in> set [0..<length genes] \<and> c \<in> set [r + 1..<length genes]} ?st st'"
    using assms(1) c by (rule calculateRowSame_frame)
  have "(r, c) \<notin> {(r, c). r \<in> set [0..<length genes] \<and> c \<in> set [r + 1..<length genes]}"
    using assms(3) by simp
  moreover have "c < cols (snd ?st)" using assms(2,3) c by simp
  ultimately have "getScoreAt (snd st') r c = getScoreAt (snd ?st) r c"
    using f unfolding frame_def by blast
  then show ?thesis using assms(2,3) by (simp add: get_new)
qed

section \<open>The scan of a column\<close>

lemma scan_inv_init: "scan_inv scores c {} (Fin (- 1), [])"
  by (simp add: scan_inv_def)

lemma scan_inv_step:
  assumes "scan_inv scores c S acc" "r \<notin> S"
  shows "scan_inv scores c (insert r S) (scan_step scores c r acc)"
proof -
  obtain b idxs where acc: "acc = (b, idxs)" by (cases acc)
  let ?cur = "getScoreAt scores r c"
  have I: "b \<noteq> NaN" "\<forall>r' \<in> S. \<not> score_less b (getScoreAt scores r' c)"
    "set idxs = {r' \<in> S. score_eq (getScoreAt scores r' c) b}" "distinct idxs"
    using assms(1) unfolding scan_inv_def acc by simp_all
  show ?thesis
  proof (cases "score_less b ?cur")
    case True
    then have nn: "?cur \<noteq> NaN" by (auto dest: score_less_not_nan)
    have ub: "\<forall>r' \<in> insert r S. \<not> score_less ?cur (getScoreAt scores r' c)"
      using I(2) True by (auto dest: score_less_trans)
    have "\<And>x. x \<in> S \<Longrightarrow> \<not> score_eq (getScoreAt scores x c) ?cur"
    proof
      fix x assume "x \<in> S" "score_eq (getScoreAt scores x c) ?cur"
      then have "getScoreAt scores x c = ?cur" "\<not> score_less b (getScoreAt scores x c)"
        using I(2) by (auto dest: score_eq_imp_eq)
      then show False using True by simp
    qed
    then have "{r' \<in> insert r S. score_eq (getScoreAt scores r' c) ?cur} = {r}"
      using nn by (auto simp: score_eq_refl)
    then show ?thesis using True nn ub unfolding scan_inv_def acc scan_step_def
      by (simp add: Let_def)
  next
    case nl: False
    show ?thesis
    proof (cases "score_eq ?cur b")
      case True
      have "{r' \<in> insert r S. score_eq (getScoreAt scores r' c) b} = insert r (set idxs)"
        using True I(3) by auto
      then show ?thesis using True nl I assms(2) unfolding scan_inv_def acc scan_step_def
        by (simp add: Let_def distinct_insert)
    next
      case False
      have "{r' \<in> insert r S. score_eq (getScoreAt scores r' c) b} = set idxs"
        using False I(3) by auto
      then show ?thesis using False nl I unfolding scan_inv_def acc scan_step_def
        by (simp add: Let_def)
    qed
  qed
qed

lemma scan_inv_fold:
  "scan_inv scores c S acc \<Longrightarrow> distinct rows \<Longrightarrow> S \<inter> set rows = {}
   \<Longrightarrow> scan_inv scores c (S \<union> set rows) (fold (scan_step scores c) rows acc)"
proof (induction rows arbitrary: S acc)
  case Nil
  then show ?case by simp
next
  case (Cons r rows)
  have "scan_inv scores c (insert r S) (scan_step scores c r acc)"
    using Cons.prems by (intro scan_inv_step) auto
  then have "scan_inv scores c (insert r S \<union> set rows) (fold (scan_step scores c) rows (scan_step scores c r acc))"
    using Cons.prems by (intro Cons.IH) auto
  moreover have "insert r S \<union> set rows = S \<union> set (r # rows)" by auto
  ultimately show ?case by simp
qed

lemma scan_result:
  assumes "distinct rows"
  shows "scan_inv scores c (set rows) (fold (scan_step scores c) rows (Fin (- 1), []))"
  using scan_inv_fold [OF scan_inv_init assms, of scores c] by simp

lemma column_task_edge:
  assumes "e \<in> set (column_task scores cands rows c)" "distinct rows"
  shows "\<exists>r s. e = (r, c, s) \<and> r \<in> set rows \<and> s \<noteq> NaN
           \<and> score_eq (getScoreAt scores r c) s
           \<and> score_eq s (getBestScoreForCandidate cands r)
           \<and> (\<forall>r' \<in> set rows. \<not> score_less s (getScoreAt scores r' c))"
proof -
  obtain b idxs where f: "fold (scan_step scores c) rows (Fin (- 1), []) = (b, idxs)"
    by (cases "fold (scan_step scores c) rows (Fin (- 1), [])")
  have "scan_inv scores c (set rows) (b, idxs)" using scan_result [OF assms(2), of scores c] f by simp
  then have I: "b \<noteq> NaN" "\<forall>r' \<in> set rows. \<not> score_less b (getScoreAt scores r' c)"
    "set idxs = {r' \<in> set rows. score_eq (getScoreAt scores r' c) b}"
    unfolding scan_inv_def by simp_all
  from assms(1) obtain r where r: "r \<in> set idxs" "score_eq b (getBestScoreForCandidate cands r)" "e = (r, c, b)"
    unfolding column_task_def f by auto
  then have "r \<in> set rows" "score_eq (getScoreAt scores r c) b" using I(3) by auto
  then show ?thesis using r I by blast
qed

lemma column_task_distinct:
  assumes "distinct rows"
  shows "distinct (map fst (column_task scores cands rows c))"
proof -
  obtain b idxs where f: "fold (scan_step scores c) rows (Fin (- 1), []) = (b, idxs)"
    by (cases "fold (scan_step scores c) rows (Fin (- 1), [])")
  have "scan_inv scores c (set rows) (b, idxs)" using scan_result [OF assms, of scores c] f by simp
  then have "distinct idxs" unfolding scan_inv_def by simp
  then show ?thesis unfolding column_task_def f by (simp add: comp_def distinct_map_filter)
qed

section \<open>The candidate columns and the edges of the column phase\<close>

lemma map_fst_match_update:
  "map fst (map (\<lambda>(k, rs). if k = key then (k, List.insert i rs) else (k, rs)) m) = map fst m"
  by (induction m) auto

lemma match_insert_keys: "fst ` set (match_insert i key m) = insert key (fst ` set m)"
proof (cases "map_of m key")
  case None
  then show ?thesis by (simp add: match_insert_def)
next
  case (Some rs)
  then have "(key, rs) \<in> set m" by (rule map_of_SomeD)
  then have k: "key \<in> fst ` set m" by force
  have "set (map fst (map (\<lambda>(k, rs). if k = key then (k, List.insert i rs) else (k, rs)) m)) = set (map fst m)"
    by (simp only: map_fst_match_update)
  then have "fst ` set (map (\<lambda>(k, rs). if k = key then (k, List.insert i rs) else (k, rs)) m) = fst ` set m"
    by (simp only: set_map)
  then have "fst ` set (match_insert i key m) = fst ` set m" using Some by (simp add: match_insert_def)
  then show ?thesis using k by auto
qed

lemma match_insert_distinct:
  assumes "distinct (map fst m)"
  shows "distinct (map fst (match_insert i key m))"
proof (cases "map_of m key")
  case None
  then have "key \<notin> fst ` set m" by (simp add: map_of_eq_None_iff)
  then show ?thesis using assms None by (simp add: match_insert_def)
next
  case (Some rs)
  have "match_insert i key m = map (\<lambda>(k, rs). if k = key then (k, List.insert i rs) else (k, rs)) m"
    using Some by (simp add: match_insert_def)
  then show ?thesis using assms by (simp only: map_fst_match_update)
qed

lemma fold_match_insert:
  "fst ` set (fold (match_insert i) ks m) = set ks \<union> fst ` set m
   \<and> (distinct (map fst m) \<longrightarrow> distinct (map fst (fold (match_insert i) ks m)))"
proof (induction ks arbitrary: m)
  case Nil
  then show ?case by simp
next
  case (Cons k ks)
  show ?case using Cons.IH [of "match_insert i k m"]
    by (auto simp: match_insert_keys match_insert_distinct)
qed

lemma fold_rows_match:
  "fst ` set (fold (\<lambda>i m. fold (match_insert i) (F i) m) rs m) = (\<Union>i \<in> set rs. set (F i)) \<union> fst ` set m
   \<and> (distinct (map fst m) \<longrightarrow> distinct (map fst (fold (\<lambda>i m. fold (match_insert i) (F i) m) rs m)))"
proof (induction rs arbitrary: m)
  case Nil
  then show ?case by simp
next
  case (Cons r rs)
  show ?case using Cons.IH [of "fold (match_insert r) (F r) m"] fold_match_insert [of r "F r" m]
    by auto
qed

lemma getPossibleMatch_keys:
  "fst ` set (getPossibleMatch b) = (\<Union>i \<in> {..<capacity b}. set (columns (candidates b ! i)))"
  using fold_rows_match [of "\<lambda>i. columns (candidates b ! i)" "[0..<capacity b]" "[]"]
  by (auto simp: getPossibleMatch_def)

lemma getPossibleMatch_distinct: "distinct (map fst (getPossibleMatch b))"
  using fold_rows_match [of "\<lambda>i. columns (candidates b ! i)" "[0..<capacity b]" "[]"]
  by (simp add: getPossibleMatch_def)

lemma checkForBBH_edge:
  assumes "e \<in> set (checkForBBH colGenes rowGenes cands scores)"
  shows "\<exists>c. c \<in> fst ` set (getPossibleMatch cands) \<and> e \<in> set (column_task scores cands [0..<length rowGenes] c)"
  using assms unfolding checkForBBH_def by force

lemma checkForBBHSame_edge:
  assumes "e \<in> set (checkForBBHSame genes cands scores)"
  shows "\<exists>c. c \<in> fst ` set (getPossibleMatch cands) \<and> e \<in> set (column_task scores cands [0..<c] c)"
  using assms unfolding checkForBBHSame_def by force

section \<open>After the row phase: the best of each row\<close>

lemma row_ok_best:
  assumes "row_ok g colGenes r C (cands, scores)" "col \<in> C" "score_less (Fin 0) (getScoreAt scores r col)"
  shows "(\<exists>c \<in> C. score_eq (getScoreAt scores r c) (getBestScoreForCandidate cands r))
       \<and> (\<forall>c \<in> C. \<not> score_less (getBestScoreForCandidate cands r) (getScoreAt scores r c))
       \<and> set (columns (candidates cands ! r))
           = {c \<in> C. score_eq (getScoreAt scores r c) (getBestScoreForCandidate cands r)}"
proof -
  have inv: "cand_inv (getScoreAt scores r) C (candidates cands ! r)"
    using assms(1) by (simp add: row_ok_def)
  have pos: "score_less (Fin 0) (best (candidates cands ! r))"
    using inv assms(2,3) by (rule cand_inv_positive)
  have att: "\<exists>c \<in> C. score_eq (getScoreAt scores r c) (best (candidates cands ! r))"
    using inv pos by (rule cand_inv_attained)
  have ub: "\<forall>c \<in> C. \<not> score_less (best (candidates cands ! r)) (getScoreAt scores r c)"
    using inv unfolding cand_inv_def by blast
  have cs: "set (columns (candidates cands ! r))
           = {c \<in> C. score_eq (getScoreAt scores r c) (best (candidates cands ! r))}"
    using inv pos unfolding cand_inv_def by simp
  show ?thesis unfolding getBestScoreForCandidate_def using att ub cs by blast
qed

text \<open>
  After the row phase of a genome pair, for every row that holds a score above 0, the best
  score of the row's candidate set is the maximum of the row over the compared columns: it
  is attained there and no score of the row exceeds it; and the columns of the candidate set
  are exactly the compared columns whose score equals that maximum.  The compared columns
  are all the columns for two different genomes (\<open>calculateRow\<close>) and the columns right of
  the diagonal for one genome against itself (\<open>calculateRowSame\<close>).
\<close>

theorem row_phase_best_candidates:
  "(calculateRow rowGenes colGenes
       (newBBHCandidatesContainer (length rowGenes) (length colGenes),
        newScoresContainer (length rowGenes) (length colGenes)) = Some (cands, scores)
     \<and> r < length rowGenes \<and> col < length colGenes \<and> score_less (Fin 0) (getScoreAt scores r col)
    \<longrightarrow> (\<exists>c < length colGenes. score_eq (getScoreAt scores r c) (getBestScoreForCandidate cands r))
       \<and> (\<forall>c < length colGenes. \<not> score_less (getBestScoreForCandidate cands r) (getScoreAt scores r c))
       \<and> set (columns (candidates cands ! r))
           = {c. c < length colGenes \<and> score_eq (getScoreAt scores r c) (getBestScoreForCandidate cands r)})
   \<and> (calculateRowSame genes
       (newBBHCandidatesContainer (length genes) (length genes),
        newScoresContainer (length genes) (length genes)) = Some (cands, scores)
     \<and> r < length genes \<and> r < col \<and> col < length genes \<and> score_less (Fin 0) (getScoreAt scores r col)
    \<longrightarrow> (\<exists>c. r < c \<and> c < length genes \<and> score_eq (getScoreAt scores r c) (getBestScoreForCandidate cands r))
       \<and> (\<forall>c. r < c \<and> c < length genes \<longrightarrow> \<not> score_less (getBestScoreForCandidate cands r) (getScoreAt scores r c))
       \<and> set (columns (candidates cands ! r))
           = {c. r < c \<and> c < length genes \<and> score_eq (getScoreAt scores r c) (getBestScoreForCandidate cands r)})"
proof (intro conjI impI)
  assume a: "calculateRow rowGenes colGenes
       (newBBHCandidatesContainer (length rowGenes) (length colGenes),
        newScoresContainer (length rowGenes) (length colGenes)) = Some (cands, scores)
     \<and> r < length rowGenes \<and> col < length colGenes \<and> score_less (Fin 0) (getScoreAt scores r col)"
  then have "row_ok (rowGenes ! r) colGenes r {c. c < length colGenes} (cands, scores)"
    using calculateRow_ok by blast
  from row_ok_best [OF this, of col] a
  have b: "(\<exists>c \<in> {c. c < length colGenes}. score_eq (getScoreAt scores r c) (getBestScoreForCandidate cands r))
       \<and> (\<forall>c \<in> {c. c < length colGenes}. \<not> score_less (getBestScoreForCandidate cands r) (getScoreAt scores r c))
       \<and> set (columns (candidates cands ! r))
           = {c \<in> {c. c < length colGenes}. score_eq (getScoreAt scores r c) (getBestScoreForCandidate cands r)}"
    by simp
  show "\<exists>c < length colGenes. score_eq (getScoreAt scores r c) (getBestScoreForCandidate cands r)"
    using b by blast
  show "\<forall>c < length colGenes. \<not> score_less (getBestScoreForCandidate cands r) (getScoreAt scores r c)"
    using b by blast
  show "set (columns (candidates cands ! r))
           = {c. c < length colGenes \<and> score_eq (getScoreAt scores r c) (getBestScoreForCandidate cands r)}"
    using b by simp
next
  assume a: "calculateRowSame genes
       (newBBHCandidatesContainer (length genes) (length genes),
        newScoresContainer (length genes) (length genes)) = Some (cands, scores)
     \<and> r < length genes \<and> r < col \<and> col < length genes \<and> score_less (Fin 0) (getScoreAt scores r col)"
  then have "row_ok (genes ! r) genes r {c. r < c \<and> c < length genes} (cands, scores)"
    using calculateRowSame_ok by blast
  from row_ok_best [OF this, of col] a
  have b: "(\<exists>c \<in> {c. r < c \<and> c < length genes}. score_eq (getScoreAt scores r c) (getBestScoreForCandidate cands r))
       \<and> (\<forall>c \<in> {c. r < c \<and> c < length genes}. \<not> score_less (getBestScoreForCandidate cands r) (getScoreAt scores r c))
       \<and> set (columns (candidates cands ! r))
           = {c \<in> {c. r < c \<and> c < length genes}. score_eq (getScoreAt scores r c) (getBestScoreForCandidate cands r)}"
    by simp
  show "\<exists>c. r < c \<and> c < length genes \<and> score_eq (getScoreAt scores r c) (getBestScoreForCandidate cands r)"
    using b by blast
  show "\<forall>c. r < c \<and> c < length genes \<longrightarrow> \<not> score_less (getBestScoreForCandidate cands r) (getScoreAt scores r c)"
    using b by blast
  show "set (columns (candidates cands ! r))
           = {c. r < c \<and> c < length genes \<and> score_eq (getScoreAt scores r c) (getBestScoreForCandidate cands r)}"
    using b by simp
qed


section \<open>A row that holds a not-a-number\<close>

text \<open>
  With \<open>k = 4\<close> the genes \<open>AB\<close> and \<open>ABC\<close> have no k-mer, and the gene \<open>ABCABC\<close> has
  three.  These are the genes the indexer builds from the two genomes \<open>[AB]\<close> and
  \<open>[ABC, ABCABC]\<close>.
\<close>

lemma short_genomes_built:
  "snd (createAllGenomes 4 [] [[parsedGene ''AB'' 30], [parsedGene ''ABC'' 31, parsedGene ''ABCABC'' 32]])
     = [[geneShort], [geneShort3, geneABCABC4]]"
  by code_simp

text \<open>
  \<open>AB\<close> against \<open>ABC\<close> passes the length filter and divides 0 by 0; \<open>AB\<close> against
  \<open>ABCABC\<close> is stopped by the length filter.
\<close>

lemma short_genomes_similarities:
  "calculateSimilarity geneShort geneShort3 = Some NaN
   \<and> calculateSimilarity geneShort geneABCABC4 = Some (Fin 0)"
  by code_simp

text \<open>
  C5.  The row phase of the row genome \<open>[AB]\<close> against the column genome \<open>[ABC, ABCABC]\<close>
  leaves the row \<open>[NaN, 0]\<close>, which is not all zero.  The candidate set of the row keeps the
  best score 0 and no column, although the score of column 1 equals that best score: the
  columns of the candidate set are not the columns whose score equals the best score.  The
  not-a-number comes from the division of 0 by 0 in \<open>calculateSimilarity\<close>.
\<close>

theorem nan_row_keeps_no_candidate:
  "\<exists>cands scores.
     calculateRow [geneShort] [geneShort3, geneABCABC4]
       (newBBHCandidatesContainer 1 2, newScoresContainer 1 2) = Some (cands, scores)
     \<and> getScoreAt scores 0 0 = NaN
     \<and> getScoreAt scores 0 1 = Fin 0
     \<and> getBestScoreForCandidate cands 0 = Fin 0
     \<and> score_eq (getScoreAt scores 0 1) (getBestScoreForCandidate cands 0)
     \<and> columns (candidates cands ! 0) = []"
proof -
  have "calculateRow [geneShort] [geneShort3, geneABCABC4]
       (newBBHCandidatesContainer 1 2, newScoresContainer 1 2)
     = Some (\<lparr>capacity = 1, candidates = [\<lparr>best = Fin 0, columns = []\<rparr>]\<rparr>,
             \<lparr>cols = 2, cells = [NaN, Fin 0]\<rparr>)"
    by code_simp
  then show ?thesis
    by (simp add: getScoreAt_def getBestScoreForCandidate_def)
qed

section \<open>The column phase: an emitted pair is best on its row and on its column\<close>

text \<open>
  C2.  Every edge \<open>(r, c, s)\<close> the column phase emits, whatever the matrix and the candidates
  it is given: \<open>s\<close> equals the score \<open>matrix[r, c]\<close>, \<open>s\<close> equals the best score of the
  candidate set of row \<open>r\<close>, and \<open>s\<close> is the maximum of column \<open>c\<close> over the scanned rows (it
  is the score of row \<open>r\<close>, and no scanned row has a greater score): all rows for two
  different genomes (\<open>checkForBBH\<close>), the rows above the diagonal for one genome
  (\<open>checkForBBHSame\<close>).
\<close>

theorem emitted_edge_is_mutual_best:
  "((r, c, s) \<in> set (checkForBBH colGenes rowGenes cands scores)
    \<longrightarrow> r < length rowGenes
       \<and> score_eq (getScoreAt scores r c) s
       \<and> score_eq s (getBestScoreForCandidate cands r)
       \<and> (\<forall>r' < length rowGenes. \<not> score_less s (getScoreAt scores r' c)))
   \<and> ((r, c, s) \<in> set (checkForBBHSame genes cands scores)
    \<longrightarrow> r < c
       \<and> score_eq (getScoreAt scores r c) s
       \<and> score_eq s (getBestScoreForCandidate cands r)
       \<and> (\<forall>r' < c. \<not> score_less s (getScoreAt scores r' c)))"
proof (intro conjI impI)
  assume "(r, c, s) \<in> set (checkForBBH colGenes rowGenes cands scores)"
  then obtain c' where "(r, c, s) \<in> set (column_task scores cands [0..<length rowGenes] c')"
    using checkForBBH_edge by blast
  from column_task_edge [OF this]
  have e: "r \<in> set [0..<length rowGenes] \<and> score_eq (getScoreAt scores r c) s
       \<and> score_eq s (getBestScoreForCandidate cands r)
       \<and> (\<forall>r' \<in> set [0..<length rowGenes]. \<not> score_less s (getScoreAt scores r' c))"
    by auto
  show "r < length rowGenes" using e by simp
  show "score_eq (getScoreAt scores r c) s" using e by simp
  show "score_eq s (getBestScoreForCandidate cands r)" using e by simp
  show "\<forall>r' < length rowGenes. \<not> score_less s (getScoreAt scores r' c)" using e by simp
next
  assume "(r, c, s) \<in> set (checkForBBHSame genes cands scores)"
  then obtain c' where "(r, c, s) \<in> set (column_task scores cands [0..<c'] c')"
    using checkForBBHSame_edge by blast
  from column_task_edge [OF this]
  have e: "r \<in> set [0..<c] \<and> score_eq (getScoreAt scores r c) s
       \<and> score_eq s (getBestScoreForCandidate cands r)
       \<and> (\<forall>r' \<in> set [0..<c]. \<not> score_less s (getScoreAt scores r' c))"
    by auto
  show "r < c" using e by simp
  show "score_eq (getScoreAt scores r c) s" using e by simp
  show "score_eq s (getBestScoreForCandidate cands r)" using e by simp
  show "\<forall>r' < c. \<not> score_less s (getScoreAt scores r' c)" using e by simp
qed

section \<open>No edge with score 0\<close>

lemma calculateRow_capacity:
  assumes "calculateRow rowGenes colGenes
             (newBBHCandidatesContainer (length rowGenes) (length colGenes),
              newScoresContainer (length rowGenes) (length colGenes)) = Some (cands, scores)"
  shows "capacity cands = length rowGenes"
proof -
  have "frame (set [0..<length rowGenes])
           {(r, c). r \<in> set [0..<length rowGenes] \<and> c \<in> set [0..<length colGenes]}
           (newBBHCandidatesContainer (length rowGenes) (length colGenes),
            newScoresContainer (length rowGenes) (length colGenes)) (cands, scores)"
    using assms by (rule calculateRow_frame) (simp add: newScoresContainer_def)
  then show ?thesis by (simp add: frame_def newBBHCandidatesContainer_def)
qed

lemma calculateRowSame_capacity:
  assumes "calculateRowSame genes
             (newBBHCandidatesContainer (length genes) (length genes),
              newScoresContainer (length genes) (length genes)) = Some (cands, scores)"
  shows "capacity cands = length genes"
proof -
  have "frame (set [0..<length genes])
           {(r, c). r \<in> set [0..<length genes] \<and> c \<in> set [r + 1..<length genes]}
           (newBBHCandidatesContainer (length genes) (length genes),
            newScoresContainer (length genes) (length genes)) (cands, scores)"
    using assms by (rule calculateRowSame_frame) (simp add: newScoresContainer_def)
  then show ?thesis by (simp add: frame_def newBBHCandidatesContainer_def)
qed

lemma candidate_column_positive:
  assumes "row_ok g colGenes i C (cands, scores)" "c \<in> set (columns (candidates cands ! i))"
  shows "c \<in> C \<and> score_less (Fin 0) (getScoreAt scores i c)"
proof -
  have "cand_inv (getScoreAt scores i) C (candidates cands ! i)" using assms(1) by (simp add: row_ok_def)
  from cand_inv_member [OF this assms(2)]
  have m: "c \<in> C" "score_eq (getScoreAt scores i c) (best (candidates cands ! i))"
    "score_less (Fin 0) (best (candidates cands ! i))" by simp_all
  from m(2) have "getScoreAt scores i c = best (candidates cands ! i)" by (rule score_eq_imp_eq)
  then show ?thesis using m by simp
qed

lemma different_edge_positive:
  assumes "calculateRow rowGenes colGenes
             (newBBHCandidatesContainer (length rowGenes) (length colGenes),
              newScoresContainer (length rowGenes) (length colGenes)) = Some (cands, scores)"
    and "(r, c, s) \<in> set (checkForBBH colGenes rowGenes cands scores)"
  shows "score_less (Fin 0) s"
proof -
  from checkForBBH_edge [OF assms(2)] obtain c' where
    key: "c' \<in> fst ` set (getPossibleMatch cands)"
    and e: "(r, c, s) \<in> set (column_task scores cands [0..<length rowGenes] c')" by blast
  from column_task_edge [OF e] have cc: "c' = c" and nn: "s \<noteq> NaN"
    and ub: "\<forall>r' \<in> set [0..<length rowGenes]. \<not> score_less s (getScoreAt scores r' c)" by auto
  from key obtain i where i: "i < capacity cands" "c \<in> set (columns (candidates cands ! i))"
    unfolding getPossibleMatch_keys cc by auto
  have iR: "i < length rowGenes" using i(1) calculateRow_capacity [OF assms(1)] by simp
  then have "row_ok (rowGenes ! i) colGenes i {c. c < length colGenes} (cands, scores)"
    using calculateRow_ok [OF assms(1)] by simp
  from candidate_column_positive [OF this i(2)]
  have pos: "score_less (Fin 0) (getScoreAt scores i c)" by simp
  have "\<not> score_less s (getScoreAt scores i c)" using ub iR by simp
  then show ?thesis using pos nn by (rule score_le_less_trans)
qed

lemma same_edge_positive:
  assumes "calculateRowSame genes
             (newBBHCandidatesContainer (length genes) (length genes),
              newScoresContainer (length genes) (length genes)) = Some (cands, scores)"
    and "(r, c, s) \<in> set (checkForBBHSame genes cands scores)"
  shows "score_less (Fin 0) s"
proof -
  from checkForBBHSame_edge [OF assms(2)] obtain c' where
    key: "c' \<in> fst ` set (getPossibleMatch cands)"
    and e: "(r, c, s) \<in> set (column_task scores cands [0..<c'] c')" by blast
  from column_task_edge [OF e] have cc: "c' = c" and nn: "s \<noteq> NaN" by auto
  from column_task_edge [OF e] cc
  have ub: "\<forall>r' \<in> set [0..<c]. \<not> score_less s (getScoreAt scores r' c)" by auto
  from key obtain i where i: "i < capacity cands" "c \<in> set (columns (candidates cands ! i))"
    unfolding getPossibleMatch_keys cc by auto
  have iR: "i < length genes" using i(1) calculateRowSame_capacity [OF assms(1)] by simp
  then have "row_ok (genes ! i) genes i {c. i < c \<and> c < length genes} (cands, scores)"
    using calculateRowSame_ok [OF assms(1)] by simp
  from candidate_column_positive [OF this i(2)]
  have pos: "score_less (Fin 0) (getScoreAt scores i c)" and ic: "i < c" by simp_all
  have "\<not> score_less s (getScoreAt scores i c)" using ub ic by simp
  then show ?thesis using pos nn by (rule score_le_less_trans)
qed

text \<open>
  C3.  No edge written for a genome pair, same genome or different genomes, has the score
  0: every score written is greater than 0.  A column is scanned only when some row lists
  it as a candidate, that row's score in the column is above 0 and is among the rows
  scanned, so the best score found for a candidate column is never 0.
\<close>

theorem no_zero_score_edge:
  assumes "calculateBidirectionalBestHitDifferentGenomes colGenes rowGenes = Some edges
           \<or> calculateBidirectionalBestHitSameGenome genes = Some edges"
    and "(r, c, s) \<in> set edges"
  shows "score_less (Fin 0) s \<and> \<not> score_eq s (Fin 0)"
proof -
  have "score_less (Fin 0) s"
    using assms(1)
  proof
    assume "calculateBidirectionalBestHitDifferentGenomes colGenes rowGenes = Some edges"
    then obtain cands scores where
      "calculateRow rowGenes colGenes
             (newBBHCandidatesContainer (length rowGenes) (length colGenes),
              newScoresContainer (length rowGenes) (length colGenes)) = Some (cands, scores)"
      "edges = checkForBBH colGenes rowGenes cands scores"
      unfolding calculateBidirectionalBestHitDifferentGenomes_def by (auto split: option.splits)
    then show ?thesis using assms(2) different_edge_positive by blast
  next
    assume "calculateBidirectionalBestHitSameGenome genes = Some edges"
    then obtain cands scores where
      "calculateRowSame genes
             (newBBHCandidatesContainer (length genes) (length genes),
              newScoresContainer (length genes) (length genes)) = Some (cands, scores)"
      "edges = checkForBBHSame genes cands scores"
      unfolding calculateBidirectionalBestHitSameGenome_def by (auto split: option.splits)
    then show ?thesis using assms(2) same_edge_positive by blast
  qed
  moreover have "\<not> (score_less (Fin 0) s \<and> score_eq s (Fin 0))"
    by (cases s) auto
  ultimately show ?thesis by blast
qed

section \<open>Same genome: each pair at most once\<close>

lemma concat_columns_distinct:
  assumes "distinct (map fst m)"
    and "\<And>c. distinct (map fst (F c))"
    and "\<And>c e. e \<in> set (F c) \<Longrightarrow> fst (snd e) = c"
  shows "distinct (map (\<lambda>e. (fst e, fst (snd e))) (concat (map (\<lambda>(c, rowset). F c) m)))"
  using assms(1)
proof (induction m)
  case Nil
  then show ?case by simp
next
  case (Cons p m)
  obtain c rowset where p: "p = (c, rowset)" by (cases p)
  have d1: "distinct (map (\<lambda>e. (fst e, fst (snd e))) (F c))"
  proof -
    have "distinct (map fst (map (\<lambda>e. (fst e, fst (snd e))) (F c)))"
      using assms(2) [of c] by (simp add: comp_def)
    then show ?thesis using distinct_map [of fst "map (\<lambda>e. (fst e, fst (snd e))) (F c)"] by blast
  qed
  have d2: "distinct (map (\<lambda>e. (fst e, fst (snd e))) (concat (map (\<lambda>(c, rowset). F c) m)))"
    using Cons by simp
  have disj: "set (map (\<lambda>e. (fst e, fst (snd e))) (F c))
       \<inter> set (map (\<lambda>e. (fst e, fst (snd e))) (concat (map (\<lambda>(c, rowset). F c) m))) = {}"
  proof -
    { fix q assume a: "q \<in> set (map (\<lambda>e. (fst e, fst (snd e))) (F c))"
        and b: "q \<in> set (map (\<lambda>e. (fst e, fst (snd e))) (concat (map (\<lambda>(c, rowset). F c) m)))"
      from a have "snd q = c" using assms(3) by auto
      moreover from b obtain c' rs' where "(c', rs') \<in> set m" "snd q = c'" using assms(3) by auto
      ultimately have "c \<in> fst ` set m" by force
      then have False using Cons.prems p by simp }
    then show ?thesis by blast
  qed
  show ?case using d1 d2 disj by (simp add: p)
qed

lemma checkForBBHSame_distinct:
  "distinct (map (\<lambda>e. (fst e, fst (snd e))) (checkForBBHSame genes cands scores))"
  unfolding checkForBBHSame_def
proof (rule concat_columns_distinct [OF getPossibleMatch_distinct])
  fix c show "distinct (map fst (column_task scores cands [0..<c] c))"
    by (rule column_task_distinct) simp
next
  fix c e assume "e \<in> set (column_task scores cands [0..<c] c)"
  from column_task_edge [OF this] show "fst (snd e) = c" by auto
qed

lemma checkForBBHSame_upper:
  assumes "e \<in> set (checkForBBHSame genes cands scores)"
  shows "fst e < fst (snd e)"
proof -
  from checkForBBHSame_edge [OF assms] obtain c where "e \<in> set (column_task scores cands [0..<c] c)"
    by blast
  from column_task_edge [OF this] show ?thesis by auto
qed

text \<open>
  C6.  For a genome compared with itself, every edge has its row index below its column
  index (so no edge pairs a gene with itself), and no unordered pair of genes is emitted
  twice.  The row phase leaves the cells on and below the diagonal at 0.
\<close>

theorem same_genome_edges_once:
  assumes "calculateRowSame genes
             (newBBHCandidatesContainer (length genes) (length genes),
              newScoresContainer (length genes) (length genes)) = Some (cands, scores)"
  shows "calculateBidirectionalBestHitSameGenome genes = Some (checkForBBHSame genes cands scores)
       \<and> (\<forall>e \<in> set (checkForBBHSame genes cands scores). fst e < fst (snd e))
       \<and> distinct (map (\<lambda>e. {fst e, fst (snd e)}) (checkForBBHSame genes cands scores))
       \<and> (\<forall>r c. r < length genes \<and> c \<le> r \<longrightarrow> getScoreAt scores r c = Fin 0)"
proof -
  let ?es = "checkForBBHSame genes cands scores"
  have up: "\<forall>e \<in> set ?es. fst e < fst (snd e)" using checkForBBHSame_upper by blast
  define ys where "ys = map (\<lambda>e. (fst e, fst (snd e))) ?es"
  have dy: "distinct ys" unfolding ys_def by (rule checkForBBHSame_distinct)
  have upy: "\<forall>p \<in> set ys. fst p < snd p" unfolding ys_def using up by auto
  have "inj_on (\<lambda>p. {fst p, snd p}) (set ys)"
  proof (rule inj_onI)
    fix p q assume p: "p \<in> set ys" and q: "q \<in> set ys"
      and eq: "{fst p, snd p} = {fst q, snd q}"
    from p upy have "fst p < snd p" by auto
    moreover from q upy have "fst q < snd q" by auto
    ultimately have "fst p = fst q \<and> snd p = snd q" using eq by (auto simp: doubleton_eq_iff)
    then show "p = q" by (simp add: prod_eq_iff)
  qed
  then have "distinct (map (\<lambda>p. {fst p, snd p}) ys)"
    using dy distinct_map [of "\<lambda>p. {fst p, snd p}" ys] by blast
  then have d: "distinct (map (\<lambda>e. {fst e, fst (snd e)}) ?es)" by (simp add: ys_def comp_def)
  have z: "\<forall>r c. r < length genes \<and> c \<le> r \<longrightarrow> getScoreAt scores r c = Fin 0"
    using calculateRowSame_lower_zero [OF assms] by simp
  have "calculateBidirectionalBestHitSameGenome genes = Some ?es"
    using assms by (simp add: calculateBidirectionalBestHitSameGenome_def)
  then show ?thesis using up d z by blast
qed

section \<open>The two phases on example genomes\<close>

text \<open>
  Two examples: the genes \<open>ABCABC\<close> and a short gene as rows against \<open>ABCXYZ\<close> and
  \<open>ABCABC\<close> as columns, and the genome \<open>ABCABC\<close>, \<open>ABCABC\<close>, \<open>ABCXYZ\<close> against itself.
\<close>

lemma example_row_phase:
  "calculateRow [geneABCABC, geneShort] [geneABCXYZ, geneABCABC]
     (newBBHCandidatesContainer (length [geneABCABC, geneShort]) (length [geneABCXYZ, geneABCABC]),
      newScoresContainer (length [geneABCABC, geneShort]) (length [geneABCXYZ, geneABCABC]))
   = Some (\<lparr>capacity = 2, candidates = [\<lparr>best = Fin 1, columns = [1]\<rparr>, \<lparr>best = Fin 0, columns = []\<rparr>]\<rparr>,
           \<lparr>cols = 2, cells = [Fin (Fract 1 7), Fin 1, Fin 0, Fin 0]\<rparr>)"
  by code_simp

lemma example_row_phase_same:
  "calculateRowSame [geneABCABC, geneABCABC, geneABCXYZ]
     (newBBHCandidatesContainer (length [geneABCABC, geneABCABC, geneABCXYZ]) (length [geneABCABC, geneABCABC, geneABCXYZ]),
      newScoresContainer (length [geneABCABC, geneABCABC, geneABCXYZ]) (length [geneABCABC, geneABCABC, geneABCXYZ]))
   = Some (\<lparr>capacity = 3,
             candidates = [\<lparr>best = Fin 1, columns = [1]\<rparr>, \<lparr>best = Fin (Fract 1 7), columns = [2]\<rparr>,
                           \<lparr>best = Fin 0, columns = []\<rparr>]\<rparr>,
           \<lparr>cols = 3, cells = [Fin 0, Fin 1, Fin (Fract 1 7), Fin 0, Fin 0, Fin (Fract 1 7), Fin 0, Fin 0, Fin 0]\<rparr>)"
  by code_simp

lemma example_column_phase:
  "checkForBBH [geneABCXYZ, geneABCABC] [geneABCABC, geneShort]
     \<lparr>capacity = 2, candidates = [\<lparr>best = Fin 1, columns = [1]\<rparr>, \<lparr>best = Fin 0, columns = []\<rparr>]\<rparr>
     \<lparr>cols = 2, cells = [Fin (Fract 1 7), Fin 1, Fin 0, Fin 0]\<rparr>
   = [(0, 1, Fin 1)]"
  by code_simp

lemma example_column_phase_same:
  "checkForBBHSame [geneABCABC, geneABCABC, geneABCXYZ]
     \<lparr>capacity = 3,
       candidates = [\<lparr>best = Fin 1, columns = [1]\<rparr>, \<lparr>best = Fin (Fract 1 7), columns = [2]\<rparr>,
                     \<lparr>best = Fin 0, columns = []\<rparr>]\<rparr>
     \<lparr>cols = 3, cells = [Fin 0, Fin 1, Fin (Fract 1 7), Fin 0, Fin 0, Fin (Fract 1 7), Fin 0, Fin 0, Fin 0]\<rparr>
   = [(0, 1, Fin 1), (1, 2, Fin (Fract 1 7))]"
  by code_simp

text \<open>
  Row 0 of the first example holds 1/7 and 1: its best is 1, at column 1.  Row 1 of the
  second holds 1/7 right of the diagonal: its best is 1/7, at column 2.
\<close>

theorem row_phase_best_candidates_witness:
  "calculateRow [geneABCABC, geneShort] [geneABCXYZ, geneABCABC]
     (newBBHCandidatesContainer (length [geneABCABC, geneShort]) (length [geneABCXYZ, geneABCABC]),
      newScoresContainer (length [geneABCABC, geneShort]) (length [geneABCXYZ, geneABCABC]))
   = Some (\<lparr>capacity = 2, candidates = [\<lparr>best = Fin 1, columns = [1]\<rparr>, \<lparr>best = Fin 0, columns = []\<rparr>]\<rparr>,
           \<lparr>cols = 2, cells = [Fin (Fract 1 7), Fin 1, Fin 0, Fin 0]\<rparr>)
   \<and> set (columns (candidates
      \<lparr>capacity = 2, candidates = [\<lparr>best = Fin 1, columns = [1]\<rparr>, \<lparr>best = Fin 0, columns = []\<rparr>]\<rparr> ! 0))
    = {c. c < length [geneABCXYZ, geneABCABC] \<and> score_eq
         (getScoreAt \<lparr>cols = 2, cells = [Fin (Fract 1 7), Fin 1, Fin 0, Fin 0]\<rparr> 0 c)
         (getBestScoreForCandidate
            \<lparr>capacity = 2, candidates = [\<lparr>best = Fin 1, columns = [1]\<rparr>, \<lparr>best = Fin 0, columns = []\<rparr>]\<rparr> 0)}
   \<and> set (columns (candidates
      \<lparr>capacity = 3,
        candidates = [\<lparr>best = Fin 1, columns = [1]\<rparr>, \<lparr>best = Fin (Fract 1 7), columns = [2]\<rparr>,
                      \<lparr>best = Fin 0, columns = []\<rparr>]\<rparr> ! 1))
    = {c. 1 < c \<and> c < length [geneABCABC, geneABCABC, geneABCXYZ] \<and> score_eq
         (getScoreAt \<lparr>cols = 3, cells = [Fin 0, Fin 1, Fin (Fract 1 7), Fin 0, Fin 0, Fin (Fract 1 7), Fin 0, Fin 0, Fin 0]\<rparr> 1 c)
         (getBestScoreForCandidate
            \<lparr>capacity = 3,
              candidates = [\<lparr>best = Fin 1, columns = [1]\<rparr>, \<lparr>best = Fin (Fract 1 7), columns = [2]\<rparr>,
                            \<lparr>best = Fin 0, columns = []\<rparr>]\<rparr> 1)}"
proof -
  let ?ca1 = "\<lparr>capacity = 2, candidates = [\<lparr>best = Fin 1, columns = [1]\<rparr>, \<lparr>best = Fin 0, columns = []\<rparr>]\<rparr>"
  let ?sc1 = "\<lparr>cols = 2, cells = [Fin (Fract 1 7), Fin 1, Fin 0, Fin 0]\<rparr>"
  let ?ca2 = "\<lparr>capacity = 3,
        candidates = [\<lparr>best = Fin 1, columns = [1]\<rparr>, \<lparr>best = Fin (Fract 1 7), columns = [2]\<rparr>,
                      \<lparr>best = Fin 0, columns = []\<rparr>]\<rparr>"
  let ?sc2 = "\<lparr>cols = 3, cells = [Fin 0, Fin 1, Fin (Fract 1 7), Fin 0, Fin 0, Fin (Fract 1 7), Fin 0, Fin 0, Fin 0]\<rparr>"
  have p1: "score_less (Fin 0) (getScoreAt ?sc1 0 1)" by (simp add: getScoreAt_def)
  have p2: "score_less (Fin 0) (getScoreAt ?sc2 1 2)" by (simp add: getScoreAt_def Fract_less_zero_iff zero_less_Fract_iff)
  note T = row_phase_best_candidates
    [where rowGenes = "[geneABCABC, geneShort]" and colGenes = "[geneABCXYZ, geneABCABC]"
       and genes = "[geneABCABC, geneABCABC, geneABCXYZ]" and r = r and col = col and cands = cands and scores = scores
     for r col cands scores]
  have a: "set (columns (candidates ?ca1 ! 0))
    = {c. c < length [geneABCXYZ, geneABCABC] \<and> score_eq (getScoreAt ?sc1 0 c) (getBestScoreForCandidate ?ca1 0)}"
    using T [of ?ca1 ?sc1 0 1, THEN conjunct1] example_row_phase p1 by simp
  have b: "set (columns (candidates ?ca2 ! 1))
    = {c. 1 < c \<and> c < length [geneABCABC, geneABCABC, geneABCXYZ]
          \<and> score_eq (getScoreAt ?sc2 1 c) (getBestScoreForCandidate ?ca2 1)}"
    using T [of ?ca2 ?sc2 1 2, THEN conjunct2] example_row_phase_same p2 by simp
  from example_row_phase a b show ?thesis by (intro conjI)
qed


text \<open>The edges of the two examples against their rows and columns.\<close>

theorem emitted_edge_is_mutual_best_witness:
  "(0, 1, Fin 1) \<in> set (checkForBBH [geneABCXYZ, geneABCABC] [geneABCABC, geneShort]
        \<lparr>capacity = 2, candidates = [\<lparr>best = Fin 1, columns = [1]\<rparr>, \<lparr>best = Fin 0, columns = []\<rparr>]\<rparr>
        \<lparr>cols = 2, cells = [Fin (Fract 1 7), Fin 1, Fin 0, Fin 0]\<rparr>)
   \<and> score_eq (getScoreAt \<lparr>cols = 2, cells = [Fin (Fract 1 7), Fin 1, Fin 0, Fin 0]\<rparr> 0 1) (Fin 1)
   \<and> score_eq (Fin 1) (getBestScoreForCandidate
        \<lparr>capacity = 2, candidates = [\<lparr>best = Fin 1, columns = [1]\<rparr>, \<lparr>best = Fin 0, columns = []\<rparr>]\<rparr> 0)
   \<and> \<not> score_less (Fin 1) (getScoreAt \<lparr>cols = 2, cells = [Fin (Fract 1 7), Fin 1, Fin 0, Fin 0]\<rparr> 1 1)
   \<and> (1, 2, Fin (Fract 1 7)) \<in> set (checkForBBHSame [geneABCABC, geneABCABC, geneABCXYZ]
        \<lparr>capacity = 3,
          candidates = [\<lparr>best = Fin 1, columns = [1]\<rparr>, \<lparr>best = Fin (Fract 1 7), columns = [2]\<rparr>,
                        \<lparr>best = Fin 0, columns = []\<rparr>]\<rparr>
        \<lparr>cols = 3, cells = [Fin 0, Fin 1, Fin (Fract 1 7), Fin 0, Fin 0, Fin (Fract 1 7), Fin 0, Fin 0, Fin 0]\<rparr>)
   \<and> \<not> score_less (Fin (Fract 1 7))
        (getScoreAt \<lparr>cols = 3, cells = [Fin 0, Fin 1, Fin (Fract 1 7), Fin 0, Fin 0, Fin (Fract 1 7), Fin 0, Fin 0, Fin 0]\<rparr> 0 2)"
proof -
  let ?ca1 = "\<lparr>capacity = 2, candidates = [\<lparr>best = Fin 1, columns = [1]\<rparr>, \<lparr>best = Fin 0, columns = []\<rparr>]\<rparr>"
  let ?sc1 = "\<lparr>cols = 2, cells = [Fin (Fract 1 7), Fin 1, Fin 0, Fin 0]\<rparr>"
  let ?ca2 = "\<lparr>capacity = 3,
        candidates = [\<lparr>best = Fin 1, columns = [1]\<rparr>, \<lparr>best = Fin (Fract 1 7), columns = [2]\<rparr>,
                      \<lparr>best = Fin 0, columns = []\<rparr>]\<rparr>"
  let ?sc2 = "\<lparr>cols = 3, cells = [Fin 0, Fin 1, Fin (Fract 1 7), Fin 0, Fin 0, Fin (Fract 1 7), Fin 0, Fin 0, Fin 0]\<rparr>"
  have m1: "(0, 1, Fin 1) \<in> set (checkForBBH [geneABCXYZ, geneABCABC] [geneABCABC, geneShort] ?ca1 ?sc1)"
    unfolding example_column_phase by simp
  have m2: "(1, 2, Fin (Fract 1 7)) \<in> set (checkForBBHSame [geneABCABC, geneABCABC, geneABCXYZ] ?ca2 ?sc2)"
    unfolding example_column_phase_same by simp
  note T = emitted_edge_is_mutual_best
    [where colGenes = "[geneABCXYZ, geneABCABC]" and rowGenes = "[geneABCABC, geneShort]"
       and genes = "[geneABCABC, geneABCABC, geneABCXYZ]" and r = r and c = c and s = s
       and cands = cands and scores = scores for r c s cands scores]
  from T [of 0 1 "Fin 1" ?ca1 ?sc1, THEN conjunct1] m1
  have a: "score_eq (getScoreAt ?sc1 0 1) (Fin 1)" "score_eq (Fin 1) (getBestScoreForCandidate ?ca1 0)"
    "\<forall>r' < length [geneABCABC, geneShort]. \<not> score_less (Fin 1) (getScoreAt ?sc1 r' 1)"
    by blast+
  from a(3) have a3: "\<not> score_less (Fin 1) (getScoreAt ?sc1 1 1)" by simp
  from T [of 1 2 "Fin (Fract 1 7)" ?ca2 ?sc2, THEN conjunct2] m2
  have "\<forall>r' < 2. \<not> score_less (Fin (Fract 1 7)) (getScoreAt ?sc2 r' 2)" by blast
  then have b: "\<not> score_less (Fin (Fract 1 7)) (getScoreAt ?sc2 0 2)" by simp
  from m1 a(1,2) a3 m2 b show ?thesis by (intro conjI)
qed

text \<open>The edges written for the two examples, with scores 1 and 1/7.\<close>

theorem no_zero_score_edge_witness:
  "calculateBidirectionalBestHitDifferentGenomes [geneABCXYZ, geneABCABC] [geneABCABC, geneShort]
     = Some [(0, 1, Fin 1)]
   \<and> score_less (Fin 0) (Fin 1)
   \<and> calculateBidirectionalBestHitSameGenome [geneABCABC, geneABCABC, geneABCXYZ]
     = Some [(0, 1, Fin 1), (1, 2, Fin (Fract 1 7))]
   \<and> score_less (Fin 0) (Fin (Fract 1 7))"
proof -
  have d: "calculateBidirectionalBestHitDifferentGenomes [geneABCXYZ, geneABCABC] [geneABCABC, geneShort]
     = Some [(0, 1, Fin 1)]"
    by code_simp
  have s: "calculateBidirectionalBestHitSameGenome [geneABCABC, geneABCABC, geneABCXYZ]
     = Some [(0, 1, Fin 1), (1, 2, Fin (Fract 1 7))]"
    by code_simp
  have a: "score_less (Fin 0) (Fin 1)"
    using no_zero_score_edge [of "[geneABCXYZ, geneABCABC]" "[geneABCABC, geneShort]" "[(0, 1, Fin 1)]" "[]" 0 1 "Fin 1"] d
    by simp
  have b: "score_less (Fin 0) (Fin (Fract 1 7))"
    using no_zero_score_edge [of "[]" "[]" "[(0, 1, Fin 1), (1, 2, Fin (Fract 1 7))]"
        "[geneABCABC, geneABCABC, geneABCXYZ]" 1 2 "Fin (Fract 1 7)"] s
    by simp
  from d a s b show ?thesis by (intro conjI)
qed

text \<open>The three genes of the second example give the pairs \<open>{0, 1}\<close> and \<open>{1, 2}\<close>, once each.\<close>

theorem same_genome_edges_once_witness:
  "calculateBidirectionalBestHitSameGenome [geneABCABC, geneABCABC, geneABCXYZ]
     = Some [(0, 1, Fin 1), (1, 2, Fin (Fract 1 7))]
   \<and> distinct (map (\<lambda>e. {fst e, fst (snd e)}) [(0 :: nat, 1 :: nat, Fin 1), (1, 2, Fin (Fract 1 7))])"
  using same_genome_edges_once [OF example_row_phase_same]
  by (simp only: example_column_phase_same)

section \<open>Building the k-mer containers\<close>

lemma mapper_ok_Nil: "mapper_ok []"
  by (simp add: mapper_ok_def)

lemma mapper_ok_inj:
  assumes "mapper_ok m" "map_of m w1 = Some key" "map_of m w2 = Some key"
  shows "w1 = w2"
proof -
  have d: "distinct (map snd m)" using assms(1) by (simp add: mapper_ok_def)
  have "(w1, key) \<in> set m" "(w2, key) \<in> set m" using assms(2,3) by (auto dest: map_of_SomeD)
  moreover have "inj_on snd (set m)" using d by (simp add: distinct_map)
  ultimately have "(w1, key) = (w2, key)" by (rule_tac inj_onD [of snd "set m"]) simp_all
  then show ?thesis by simp
qed

lemma map_of_extend: "map_of m w = Some key \<Longrightarrow> map_of (m @ xs) w = Some key"
  by (simp add: map_add_Some_iff)

lemma intern_ok:
  assumes "mapper_ok m" "intern m w = (key, m')"
  shows "mapper_ok m' \<and> (\<exists>xs. m' = m @ xs) \<and> map_of m' w = Some key"
proof (cases "map_of m w")
  case None
  then have eq: "key = length m" "m' = m @ [(w, length m)]" using assms(2) by (auto simp: intern_def)
  have "w \<notin> fst ` set m" using None by (simp add: map_of_eq_None_iff)
  then have "mapper_ok m'" using assms(1) unfolding mapper_ok_def eq by simp
  moreover have "map_of m' w = Some key" unfolding eq using None by (simp add: map_add_def)
  ultimately show ?thesis using eq by blast
next
  case (Some a)
  then have "key = a" "m' = m" using assms(2) by (simp_all add: intern_def)
  then show ?thesis using assms(1) Some by simp
qed

lemma map_of_increment:
  "map_of (map (\<lambda>(key', n'). if key' = key then (key', n' + 1) else (key', n')) temp) x
   = (if x = key then map_option (\<lambda>n. n + 1) (map_of temp x) else map_of temp x)"
  by (induction temp) auto

lemma map_fst_increment:
  "map fst (map (\<lambda>(key', n'). if key' = key then (key', n' + (1::nat)) else (key', n')) temp) = map fst temp"
  by (induction temp) auto

lemma count_list_snoc: "count_list (ws @ [w]) x = count_list ws x + (if w = x then 1 else 0)"
  by (induction ws) auto

lemma count_window_step:
  assumes "mapper_ok m" "rep_counts m temp ws" "count_window w (m, temp) = (m', temp')"
  shows "mapper_ok m' \<and> (\<exists>xs. m' = m @ xs) \<and> rep_counts m' temp' (ws @ [w])"
proof -
  obtain key where i: "intern m w = (key, m')"
    using assms(3) by (auto simp: count_window_def split: prod.splits)
  from intern_ok [OF assms(1) i] obtain xs where ok': "mapper_ok m'" and ext: "m' = m @ xs"
    and kw: "map_of m' w = Some key" by blast
  have stable: "\<And>w0 k0. map_of m w0 = Some k0 \<Longrightarrow> map_of m' w0 = Some k0"
    unfolding ext by (rule map_of_extend)
  have d: "distinct (map fst temp)" using assms(2) by (simp add: rep_counts_def)
  have R1: "\<And>w0. w0 \<in> set ws \<Longrightarrow> \<exists>k0. map_of m w0 = Some k0 \<and> map_of temp k0 = Some (count_list ws w0)"
    using assms(2) unfolding rep_counts_def by blast
  have R2: "\<And>k0. k0 \<in> fst ` set temp \<Longrightarrow> \<exists>w0 \<in> set ws. map_of m w0 = Some k0"
    using assms(2) unfolding rep_counts_def by blast
  show ?thesis
  proof (cases "map_of temp key")
    case None
    then have t': "temp' = temp @ [(key, 1)]" using assms(3) i by (simp add: count_window_def)
    have knot: "key \<notin> fst ` set temp" using None by (simp add: map_of_eq_None_iff)
    have wnot: "w \<notin> set ws"
    proof
      assume "w \<in> set ws"
      from R1 [OF this] obtain k0 where k0: "map_of m w = Some k0" "map_of temp k0 = Some (count_list ws w)" by blast
      from stable [OF k0(1)] kw have "k0 = key" by simp
      then show False using k0(2) None by simp
    qed
    have d': "distinct (map fst temp')" unfolding t' using d knot by simp
    have A: "\<forall>w0 \<in> set (ws @ [w]). \<exists>k0. map_of m' w0 = Some k0 \<and> map_of temp' k0 = Some (count_list (ws @ [w]) w0)"
    proof
      fix w0 assume "w0 \<in> set (ws @ [w])"
      then consider "w0 = w" | "w0 \<in> set ws" "w0 \<noteq> w" using wnot by auto
      then show "\<exists>k0. map_of m' w0 = Some k0 \<and> map_of temp' k0 = Some (count_list (ws @ [w]) w0)"
      proof cases
        case 1
        have "count_list ws w = 0" using wnot by (simp add: count_list_0_iff)
        then have "map_of temp' key = Some (count_list (ws @ [w]) w)"
          unfolding t' using None by (simp add: count_list_snoc map_add_def)
        then show ?thesis using kw 1 by blast
      next
        case 2
        from R1 [OF 2(1)] obtain k0 where k0: "map_of m w0 = Some k0" "map_of temp k0 = Some (count_list ws w0)" by blast
        have "map_of temp' k0 = Some (count_list (ws @ [w]) w0)"
          unfolding t' using k0(2) 2(2) by (simp add: count_list_snoc map_add_Some_iff)
        then show ?thesis using stable [OF k0(1)] by blast
      qed
    qed
    have B: "\<forall>k0 \<in> fst ` set temp'. \<exists>w0 \<in> set (ws @ [w]). map_of m' w0 = Some k0"
    proof
      fix k0 assume "k0 \<in> fst ` set temp'"
      then consider "k0 = key" | "k0 \<in> fst ` set temp" unfolding t' by auto
      then show "\<exists>w0 \<in> set (ws @ [w]). map_of m' w0 = Some k0"
      proof cases
        case 1
        then show ?thesis using kw by auto
      next
        case 2
        from R2 [OF this] obtain w0 where "w0 \<in> set ws" "map_of m w0 = Some k0" by blast
        then show ?thesis using stable by auto
      qed
    qed
    show ?thesis using ok' ext d' A B unfolding rep_counts_def by blast
  next
    case (Some n)
    then have t': "temp' = map (\<lambda>(key', n'). if key' = key then (key', n' + 1) else (key', n')) temp"
      using assms(3) i by (simp add: count_window_def)
    have "key \<in> fst ` set temp" using Some by (auto dest: map_of_SomeD intro: rev_image_eqI)
    from R2 [OF this] obtain w1 where w1: "w1 \<in> set ws" "map_of m w1 = Some key" by blast
    have "w1 = w" using mapper_ok_inj [OF ok' stable [OF w1(2)] kw] .
    then have win: "w \<in> set ws" and mw: "map_of m w = Some key" using w1 by simp_all
    from R1 [OF win] mw have n: "n = count_list ws w" using Some by auto
    have d': "distinct (map fst temp')" unfolding t' using d by (simp only: map_fst_increment)
    have keys': "fst ` set temp' = fst ` set temp"
    proof -
      have "set (map fst temp') = set (map fst temp)" unfolding t' by (simp only: map_fst_increment)
      then show ?thesis by (simp only: set_map)
    qed
    have A: "\<forall>w0 \<in> set (ws @ [w]). \<exists>k0. map_of m' w0 = Some k0 \<and> map_of temp' k0 = Some (count_list (ws @ [w]) w0)"
    proof
      fix w0 assume "w0 \<in> set (ws @ [w])"
      then have w0: "w0 \<in> set ws" using win by auto
      from R1 [OF w0] obtain k0 where k0: "map_of m w0 = Some k0" "map_of temp k0 = Some (count_list ws w0)" by blast
      show "\<exists>k0. map_of m' w0 = Some k0 \<and> map_of temp' k0 = Some (count_list (ws @ [w]) w0)"
      proof (cases "w0 = w")
        case True
        then have "k0 = key" using k0(1) mw by simp
        then have "map_of temp' k0 = Some (count_list (ws @ [w]) w0)"
          unfolding t' map_of_increment using k0(2) True by (simp add: count_list_snoc)
        then show ?thesis using stable [OF k0(1)] by blast
      next
        case False
        have "k0 \<noteq> key"
        proof
          assume "k0 = key"
          then have "w0 = w" using mapper_ok_inj [OF ok' stable [OF k0(1)]] kw by simp
          then show False using False by simp
        qed
        then have "map_of temp' k0 = Some (count_list (ws @ [w]) w0)"
          unfolding t' map_of_increment using k0(2) False by (simp add: count_list_snoc)
        then show ?thesis using stable [OF k0(1)] by blast
      qed
    qed
    have B: "\<forall>k0 \<in> fst ` set temp'. \<exists>w0 \<in> set (ws @ [w]). map_of m' w0 = Some k0"
    proof
      fix k0 assume "k0 \<in> fst ` set temp'"
      then have "k0 \<in> fst ` set temp" using keys' by simp
      from R2 [OF this] obtain w0 where "w0 \<in> set ws" "map_of m w0 = Some k0" by blast
      then show "\<exists>w0 \<in> set (ws @ [w]). map_of m' w0 = Some k0" using stable by auto
    qed
    show ?thesis using ok' ext d' A B unfolding rep_counts_def by blast
  qed
qed

lemma count_windows_fold:
  "mapper_ok m \<Longrightarrow> rep_counts m temp done \<Longrightarrow> fold count_window ws (m, temp) = (m', temp')
   \<Longrightarrow> mapper_ok m' \<and> (\<exists>xs. m' = m @ xs) \<and> rep_counts m' temp' (done @ ws)"
proof (induction ws arbitrary: m temp "done")
  case Nil
  then show ?case by simp
next
  case (Cons w ws)
  obtain m1 t1 where s1: "count_window w (m, temp) = (m1, t1)" by (cases "count_window w (m, temp)")
  from count_window_step [OF Cons.prems(1,2) s1] obtain xs where
    ok1: "mapper_ok m1" and e1: "m1 = m @ xs" and r1: "rep_counts m1 t1 (done @ [w])" by blast
  have "fold count_window ws (m1, t1) = (m', temp')" using Cons.prems(3) s1 by simp
  from Cons.IH [OF ok1 r1 this] obtain ys where
    "mapper_ok m'" "m' = m1 @ ys" "rep_counts m' temp' ((done @ [w]) @ ws)" by blast
  then show ?case using e1 by auto
qed

lemma sorted_keys_sort:
  assumes "distinct (map fst temp)"
  shows "sorted_wrt (<) (map fst (sort_key fst (temp :: (nat \<times> nat) list)))"
proof -
  have "distinct temp" "inj_on fst (set temp)" using assms by (simp_all add: distinct_map)
  then have "distinct (map fst (sort_key fst temp))" by (simp add: distinct_map)
  moreover have "sorted (map fst (sort_key fst temp))" by (rule sorted_sort_key)
  ultimately show ?thesis by (simp add: strict_sorted_iff)
qed

lemma map_of_sort:
  assumes "distinct (map fst temp)"
  shows "map_of (sort_key fst (temp :: (nat \<times> nat) list)) = map_of temp"
proof -
  have "distinct temp" "inj_on fst (set temp)" using assms by (simp_all add: distinct_map)
  then have "distinct (map fst (sort_key fst temp))" by (simp add: distinct_map)
  then show ?thesis using assms by (simp add: map_of_inject_set)
qed

lemma rep_counts_Nil: "rep_counts m [] []"
  by (simp add: rep_counts_def)

lemma buildContainer_represents:
  assumes "mapper_ok m" "buildContainer k m s = (m', c)"
  shows "mapper_ok m' \<and> (\<exists>xs. m' = m @ xs) \<and> represents m' (windows k s) c"
proof -
  obtain temp where f: "fold count_window (windows k s) (m, []) = (m', temp)"
    and c: "c = \<lparr>kmerSet = sort_key fst temp,
          multiplicityNumber = sum_list (map snd (sort_key fst temp)),
          biggerKey = (if temp = [] then 0 else fst (last (sort_key fst temp)))\<rparr>"
    using assms(2) by (auto simp: buildContainer_def split: prod.splits)
  from count_windows_fold [OF assms(1) rep_counts_Nil f] obtain xs where
    ok: "mapper_ok m'" and extd: "m' = m @ xs" and r: "rep_counts m' temp (windows k s)" by auto
  have d: "distinct (map fst temp)" using r by (simp add: rep_counts_def)
  have ne: "sort_key fst temp \<noteq> [] \<Longrightarrow> temp \<noteq> []" by auto
  have b: "built c" unfolding built_def c using sorted_keys_sort [OF d] ne by simp
  have mo: "multiplicity (kmerSet c) = multiplicity temp"
    unfolding c by (rule HOL.ext) (simp add: multiplicity_def map_of_sort [OF d])
  have A: "\<forall>w \<in> set (windows k s). \<exists>key. map_of m' w = Some key \<and> multiplicity (kmerSet c) key = count_list (windows k s) w"
  proof
    fix w assume "w \<in> set (windows k s)"
    then obtain key where "map_of m' w = Some key" "map_of temp key = Some (count_list (windows k s) w)"
      using r unfolding rep_counts_def by blast
    then show "\<exists>key. map_of m' w = Some key \<and> multiplicity (kmerSet c) key = count_list (windows k s) w"
      unfolding mo by (auto simp: multiplicity_def)
  qed
  have "keys (kmerSet c) = fst ` set temp" unfolding c keys_def by simp
  then have B: "\<forall>key \<in> keys (kmerSet c). \<exists>w \<in> set (windows k s). map_of m' w = Some key"
    using r unfolding rep_counts_def by simp
  show ?thesis using ok extd b A B unfolding represents_def by blast
qed

lemma represents_extend: "represents m ws c \<Longrightarrow> represents (m @ xs) ws c"
  unfolding represents_def by (meson map_of_extend)

lemma gene_rep_extend: "gene_rep m k g \<Longrightarrow> gene_rep (m @ xs) k g"
  unfolding gene_rep_def by (meson represents_extend)

lemma createKmers_rep:
  assumes "mapper_ok m" "createKmers k m g = (m', g')"
  shows "mapper_ok m' \<and> (\<exists>xs. m' = m @ xs) \<and> gene_rep m' k g' \<and> core g' = core g"
proof -
  obtain c where b: "buildContainer k m (sequence g) = (m', c)"
    and g': "g' = g\<lparr>kmersNum := length (kmerSet c), kmerContainer := Some c\<rparr>"
    using assms(2) by (auto simp: createKmers_def split: prod.splits)
  from buildContainer_represents [OF assms(1) b]
  have "mapper_ok m'" "\<exists>xs. m' = m @ xs" "represents m' (windows k (sequence g)) c" by blast+
  then show ?thesis unfolding g' by (simp add: gene_rep_def core_def)
qed

lemma createAll_rep:
  "mapper_ok m \<Longrightarrow> createAndCalculateAllKmers k m gs = (m', gs')
   \<Longrightarrow> mapper_ok m' \<and> (\<exists>xs. m' = m @ xs) \<and> (\<forall>g \<in> set gs'. gene_rep m' k g) \<and> map core gs' = map core gs"
proof (induction gs arbitrary: m m' gs')
  case Nil
  then show ?case by simp
next
  case (Cons g gs)
  obtain m1 g1 where s1: "createKmers k m g = (m1, g1)" by (cases "createKmers k m g")
  obtain m2 gs2 where s2: "createAndCalculateAllKmers k m1 gs = (m2, gs2)"
    by (cases "createAndCalculateAllKmers k m1 gs")
  have eq: "m' = m2" "gs' = g1 # gs2" using Cons.prems(2) s1 s2 by simp_all
  from createKmers_rep [OF Cons.prems(1) s1] obtain xs where
    ok1: "mapper_ok m1" and e1: "m1 = m @ xs" and r1: "gene_rep m1 k g1" and c1: "core g1 = core g" by blast
  from Cons.IH [OF ok1 s2] obtain ys where
    ok2: "mapper_ok m2" and e2: "m2 = m1 @ ys" and r2: "\<forall>g \<in> set gs2. gene_rep m2 k g"
    and c2: "map core gs2 = map core gs" by blast
  have "gene_rep m2 k g1" unfolding e2 using r1 by (rule gene_rep_extend)
  moreover have "m2 = m @ (xs @ ys)" using e1 e2 by simp
  ultimately show ?case unfolding eq using ok2 r2 c1 c2 by auto
qed

lemma createAllGenomes_rep:
  "mapper_ok m \<Longrightarrow> createAllGenomes k m gs = (m', gs')
   \<Longrightarrow> mapper_ok m' \<and> (\<exists>xs. m' = m @ xs) \<and> (\<forall>genome \<in> set gs'. \<forall>g \<in> set genome. gene_rep m' k g)
       \<and> map (map core) gs' = map (map core) gs"
proof (induction gs arbitrary: m m' gs')
  case Nil
  then show ?case by simp
next
  case (Cons g gs)
  obtain m1 g1 where s1: "createAndCalculateAllKmers k m g = (m1, g1)"
    by (cases "createAndCalculateAllKmers k m g")
  obtain m2 gs2 where s2: "createAllGenomes k m1 gs = (m2, gs2)"
    by (cases "createAllGenomes k m1 gs")
  have eq: "m' = m2" "gs' = g1 # gs2" using Cons.prems(2) s1 s2 by simp_all
  from createAll_rep [OF Cons.prems(1) s1] obtain xs where
    ok1: "mapper_ok m1" and e1: "m1 = m @ xs" and r1: "\<forall>x \<in> set g1. gene_rep m1 k x"
    and c1: "map core g1 = map core g" by blast
  from Cons.IH [OF ok1 s2] obtain ys where
    ok2: "mapper_ok m2" and e2: "m2 = m1 @ ys"
    and r2: "\<forall>genome \<in> set gs2. \<forall>g \<in> set genome. gene_rep m2 k g"
    and c2: "map (map core) gs2 = map (map core) gs" by blast
  have "\<forall>x \<in> set g1. gene_rep m2 k x" unfolding e2 using r1 by (auto intro: gene_rep_extend)
  moreover have "m2 = m @ (xs @ ys)" using e1 e2 by simp
  ultimately show ?case unfolding eq using ok2 r2 c1 c2 by auto
qed

section \<open>The similarity does not depend on the keys\<close>

lemma multiplicity_pos_in_keys: "0 < multiplicity ps key \<Longrightarrow> key \<in> keys ps"
  using multiplicity_notin [of key ps] by auto

lemma represented_keys:
  assumes "represents m ws c" "\<forall>w \<in> W. map_of m w = Some (f w)" "set ws \<subseteq> W"
  shows "keys (kmerSet c) = f ` set ws"
proof
  show "keys (kmerSet c) \<subseteq> f ` set ws"
  proof
    fix key assume "key \<in> keys (kmerSet c)"
    then obtain w where w: "w \<in> set ws" "map_of m w = Some key"
      using assms(1) unfolding represents_def by blast
    then have "key = f w" using assms(2,3) by auto
    then show "key \<in> f ` set ws" using w(1) by blast
  qed
  show "f ` set ws \<subseteq> keys (kmerSet c)"
  proof
    fix key assume "key \<in> f ` set ws"
    then obtain w where w: "w \<in> set ws" "key = f w" by blast
    then obtain key' where k: "map_of m w = Some key'" "multiplicity (kmerSet c) key' = count_list ws w"
      using assms(1) unfolding represents_def by blast
    have "key' = key" using k(1) w assms(2,3) by auto
    moreover have "count_list ws w \<noteq> 0" using w(1) by (simp add: count_list_0_iff)
    then have "0 < count_list ws w" by simp
    ultimately show "key \<in> keys (kmerSet c)" using k(2) by (intro multiplicity_pos_in_keys) simp
  qed
qed

lemma represented_multiplicity:
  assumes "mapper_ok m" "represents m ws c" "\<forall>w \<in> W. map_of m w = Some (f w)" "set ws \<subseteq> W" "w \<in> W"
  shows "multiplicity (kmerSet c) (f w) = count_list ws w"
proof (cases "w \<in> set ws")
  case True
  then obtain key where k: "map_of m w = Some key" "multiplicity (kmerSet c) key = count_list ws w"
    using assms(2) unfolding represents_def by blast
  then have "key = f w" using assms(3,5) by auto
  then show ?thesis using k(2) by simp
next
  case False
  have "f w \<notin> keys (kmerSet c)"
  proof
    assume "f w \<in> keys (kmerSet c)"
    then obtain w1 where w1: "w1 \<in> set ws" "map_of m w1 = Some (f w)"
      using assms(2) unfolding represents_def by blast
    have "map_of m w = Some (f w)" using assms(3,5) by simp
    from mapper_ok_inj [OF assms(1) w1(2) this] have "w1 = w" .
    then show False using w1(1) False by simp
  qed
  then have "multiplicity (kmerSet c) (f w) = 0" by (rule multiplicity_notin)
  moreover have "count_list ws w = 0" using False by (simp add: count_list_0_iff)
  ultimately show ?thesis by simp
qed

lemma jaccard_of_represented:
  assumes "mapper_ok m" "represents m ws1 c1" "represents m ws2 c2"
  shows "generalized_jaccard c1 c2 = seq_jaccard ws1 ws2"
proof -
  define W where "W = set ws1 \<union> set ws2"
  define f where "f w = the (map_of m w)" for w
  have dom: "\<forall>w \<in> W. map_of m w = Some (f w)"
  proof
    fix w assume "w \<in> W"
    then have "\<exists>key. map_of m w = Some key"
      using assms(2,3) unfolding represents_def W_def by blast
    then show "map_of m w = Some (f w)" unfolding f_def by auto
  qed
  have inj: "inj_on f W"
  proof (rule inj_onI)
    fix x y assume "x \<in> W" "y \<in> W" "f x = f y"
    then have "map_of m x = Some (f x)" "map_of m y = Some (f x)" using dom by auto
    then show "x = y" by (rule mapper_ok_inj [OF assms(1)])
  qed
  have s1: "set ws1 \<subseteq> W" and s2: "set ws2 \<subseteq> W" unfolding W_def by auto
  have k1: "keys (kmerSet c1) = f ` set ws1" using assms(2) dom s1 by (rule represented_keys)
  have k2: "keys (kmerSet c2) = f ` set ws2" using assms(3) dom s2 by (rule represented_keys)
  have K: "keys (kmerSet c1) \<union> keys (kmerSet c2) = f ` W" unfolding k1 k2 W_def by auto
  have m1: "\<And>w. w \<in> W \<Longrightarrow> multiplicity (kmerSet c1) (f w) = count_list ws1 w"
    using assms(1,2) dom s1 by (rule represented_multiplicity)
  have m2: "\<And>w. w \<in> W \<Longrightarrow> multiplicity (kmerSet c2) (f w) = count_list ws2 w"
    using assms(1,3) dom s2 by (rule represented_multiplicity)
  have A: "(\<Sum>key \<in> f ` W. min (multiplicity (kmerSet c1) key) (multiplicity (kmerSet c2) key))
         = (\<Sum>w \<in> W. min (count_list ws1 w) (count_list ws2 w))"
    unfolding sum.reindex [OF inj] by (rule sum.cong) (simp_all add: m1 m2)
  have B: "(\<Sum>key \<in> f ` W. max (multiplicity (kmerSet c1) key) (multiplicity (kmerSet c2) key))
         = (\<Sum>w \<in> W. max (count_list ws1 w) (count_list ws2 w))"
    unfolding sum.reindex [OF inj] by (rule sum.cong) (simp_all add: m1 m2)
  have "generalized_jaccard c1 c2
        = fdiv (\<Sum>w \<in> W. min (count_list ws1 w) (count_list ws2 w))
               (\<Sum>w \<in> W. max (count_list ws1 w) (count_list ws2 w))"
    unfolding generalized_jaccard_def K A B ..
  then show ?thesis unfolding seq_jaccard_def W_def .
qed

lemma similarity_of_represented:
  assumes "mapper_ok m" "gene_rep m k g1" "gene_rep m k g2"
  shows "calculateSimilarity g1 g2 = Some (seq_similarity k (core g1) (core g2))"
proof (cases "alphabetLength g1 < alphabetLength g2 div 2 \<or> alphabetLength g2 < alphabetLength g1 div 2")
  case True
  then show ?thesis by (simp add: calculateSimilarity_def seq_similarity_def core_def)
next
  case False
  obtain c1 c2 where c: "kmerContainer g1 = Some c1" "represents m (windows k (sequence g1)) c1"
    "kmerContainer g2 = Some c2" "represents m (windows k (sequence g2)) c2"
    using assms(2,3) unfolding gene_rep_def by blast
  have b: "built c1" "built c2" using c(2,4) by (simp_all add: represents_def)
  have "calculateSimilarity g1 g2 = Some (generalized_jaccard c1 c2)"
    using False c(1,3) b by (rule calculateSimilarity_jaccard)
  also have "generalized_jaccard c1 c2 = seq_jaccard (windows k (sequence g1)) (windows k (sequence g2))"
    using assms(1) c(2,4) by (rule jaccard_of_represented)
  finally show ?thesis using False by (simp add: seq_similarity_def core_def)
qed

section \<open>The edges of a genome pair depend on the similarities only\<close>

lemma foldM_cong: "(\<And>x s. x \<in> set xs \<Longrightarrow> f x s = g x s) \<Longrightarrow> foldM f xs s = foldM g xs s"
  by (induction xs arbitrary: s) (auto split: option.splits)

lemma foldM_total: "(\<And>x s. x \<in> set xs \<Longrightarrow> f x s \<noteq> None) \<Longrightarrow> foldM f xs s \<noteq> None"
proof (induction xs arbitrary: s)
  case Nil
  then show ?case by simp
next
  case (Cons x xs)
  have "f x s \<noteq> None" using Cons.prems by simp
  then obtain s' where "f x s = Some s'" by auto
  then show ?case using Cons.IH [of s'] Cons.prems by simp
qed

lemma row_step_total: "calculateSimilarity g (colGenes ! c) \<noteq> None \<Longrightarrow> row_step g colGenes r c st \<noteq> None"
  by (auto simp: row_step_def split: prod.splits option.splits)

lemma row_step_cong:
  "calculateSimilarity g (colGenes ! c) = calculateSimilarity g' (colGenes' ! c)
   \<Longrightarrow> row_step g colGenes r c st = row_step g' colGenes' r c st"
  by (simp add: row_step_def)

lemma rows_cong:
  assumes "\<And>r c. r \<in> set rs \<Longrightarrow> c \<in> set (colsOf r)
             \<Longrightarrow> calculateSimilarity (rowGenes ! r) (colGenes ! c) = calculateSimilarity (rowGenes' ! r) (colGenes' ! c)"
  shows "foldM (\<lambda>row. foldM (row_step (rowGenes ! row) colGenes row) (colsOf row)) rs st
       = foldM (\<lambda>row. foldM (row_step (rowGenes' ! row) colGenes' row) (colsOf row)) rs st"
proof (rule foldM_cong)
  fix r s assume r: "r \<in> set rs"
  show "foldM (row_step (rowGenes ! r) colGenes r) (colsOf r) s
      = foldM (row_step (rowGenes' ! r) colGenes' r) (colsOf r) s"
  proof (rule foldM_cong)
    fix c s' assume "c \<in> set (colsOf r)"
    then show "row_step (rowGenes ! r) colGenes r c s' = row_step (rowGenes' ! r) colGenes' r c s'"
      using assms r by (intro row_step_cong) simp
  qed
qed

lemma rows_total:
  assumes "\<And>r c. r \<in> set rs \<Longrightarrow> c \<in> set (colsOf r)
             \<Longrightarrow> calculateSimilarity (rowGenes ! r) (colGenes ! c) \<noteq> None"
  shows "foldM (\<lambda>row. foldM (row_step (rowGenes ! row) colGenes row) (colsOf row)) rs st \<noteq> None"
proof (rule foldM_total)
  fix r s assume r: "r \<in> set rs"
  show "foldM (row_step (rowGenes ! r) colGenes r) (colsOf r) s \<noteq> None"
  proof (rule foldM_total)
    fix c s' assume "c \<in> set (colsOf r)"
    then show "row_step (rowGenes ! r) colGenes r c s' \<noteq> None"
      using assms r by (intro row_step_total) simp
  qed
qed

lemma different_cong:
  assumes "length rowGenes = length rowGenes'" "length colGenes = length colGenes'"
    and "\<And>r c. r < length rowGenes \<Longrightarrow> c < length colGenes
             \<Longrightarrow> calculateSimilarity (rowGenes ! r) (colGenes ! c) = calculateSimilarity (rowGenes' ! r) (colGenes' ! c)"
  shows "calculateBidirectionalBestHitDifferentGenomes colGenes rowGenes
       = calculateBidirectionalBestHitDifferentGenomes colGenes' rowGenes'"
proof -
  have "\<And>st. calculateRow rowGenes colGenes st = calculateRow rowGenes' colGenes' st"
    unfolding calculateRow_def assms(1,2) [symmetric]
    by (rule rows_cong) (use assms(3) in simp)
  then show ?thesis
    unfolding calculateBidirectionalBestHitDifferentGenomes_def checkForBBH_def assms(1,2) [symmetric]
    by simp
qed

lemma same_cong:
  assumes "length genes = length genes'"
    and "\<And>r c. r < length genes \<Longrightarrow> c < length genes
             \<Longrightarrow> calculateSimilarity (genes ! r) (genes ! c) = calculateSimilarity (genes' ! r) (genes' ! c)"
  shows "calculateBidirectionalBestHitSameGenome genes = calculateBidirectionalBestHitSameGenome genes'"
proof -
  have "\<And>st. calculateRowSame genes st = calculateRowSame genes' st"
    unfolding calculateRowSame_def assms(1) [symmetric]
    by (rule rows_cong) (use assms(2) in simp)
  then show ?thesis
    unfolding calculateBidirectionalBestHitSameGenome_def checkForBBHSame_def assms(1) [symmetric]
    by simp
qed

lemma different_total:
  assumes "\<And>r c. r < length rowGenes \<Longrightarrow> c < length colGenes
             \<Longrightarrow> calculateSimilarity (rowGenes ! r) (colGenes ! c) \<noteq> None"
  shows "calculateBidirectionalBestHitDifferentGenomes colGenes rowGenes \<noteq> None"
proof -
  have "\<And>st. calculateRow rowGenes colGenes st \<noteq> None"
    unfolding calculateRow_def by (rule rows_total) (use assms in simp)
  then show ?thesis
    unfolding calculateBidirectionalBestHitDifferentGenomes_def by (auto split: option.splits)
qed

lemma same_total:
  assumes "\<And>r c. r < length genes \<Longrightarrow> c < length genes
             \<Longrightarrow> calculateSimilarity (genes ! r) (genes ! c) \<noteq> None"
  shows "calculateBidirectionalBestHitSameGenome genes \<noteq> None"
proof -
  have "\<And>st. calculateRowSame genes st \<noteq> None"
    unfolding calculateRowSame_def by (rule rows_total) (use assms in simp)
  then show ?thesis
    unfolding calculateBidirectionalBestHitSameGenome_def by (auto split: option.splits)
qed

lemma different_edge_bounds:
  assumes "calculateBidirectionalBestHitDifferentGenomes colGenes rowGenes = Some es" "e \<in> set es"
  shows "fst e < length rowGenes \<and> fst (snd e) < length colGenes"
proof -
  from assms(1) obtain cands scores where
    row: "calculateRow rowGenes colGenes
             (newBBHCandidatesContainer (length rowGenes) (length colGenes),
              newScoresContainer (length rowGenes) (length colGenes)) = Some (cands, scores)"
    and es: "es = checkForBBH colGenes rowGenes cands scores"
    unfolding calculateBidirectionalBestHitDifferentGenomes_def by (auto split: option.splits)
  from checkForBBH_edge [OF assms(2) [unfolded es]] obtain c where
    key: "c \<in> fst ` set (getPossibleMatch cands)"
    and e: "e \<in> set (column_task scores cands [0..<length rowGenes] c)" by blast
  from column_task_edge [OF e] have r: "fst e < length rowGenes" and cc: "fst (snd e) = c" by auto
  from key obtain i where i: "i < capacity cands" "c \<in> set (columns (candidates cands ! i))"
    unfolding getPossibleMatch_keys by auto
  have "i < length rowGenes" using i(1) calculateRow_capacity [OF row] by simp
  then have "row_ok (rowGenes ! i) colGenes i {c. c < length colGenes} (cands, scores)"
    using calculateRow_ok [OF row] by simp
  from candidate_column_positive [OF this i(2)] have "c < length colGenes" by simp
  then show ?thesis using r cc by simp
qed

lemma same_edge_bounds:
  assumes "calculateBidirectionalBestHitSameGenome genes = Some es" "e \<in> set es"
  shows "fst e < length genes \<and> fst (snd e) < length genes"
proof -
  from assms(1) obtain cands scores where
    row: "calculateRowSame genes
             (newBBHCandidatesContainer (length genes) (length genes),
              newScoresContainer (length genes) (length genes)) = Some (cands, scores)"
    and es: "es = checkForBBHSame genes cands scores"
    unfolding calculateBidirectionalBestHitSameGenome_def by (auto split: option.splits)
  from checkForBBHSame_edge [OF assms(2) [unfolded es]] obtain c where
    key: "c \<in> fst ` set (getPossibleMatch cands)"
    and e: "e \<in> set (column_task scores cands [0..<c] c)" by blast
  from column_task_edge [OF e] have r: "fst e < c" and cc: "fst (snd e) = c" by auto
  from key obtain i where i: "i < capacity cands" "c \<in> set (columns (candidates cands ! i))"
    unfolding getPossibleMatch_keys by auto
  have "i < length genes" using i(1) calculateRowSame_capacity [OF row] by simp
  then have "row_ok (genes ! i) genes i {c. i < c \<and> c < length genes} (cands, scores)"
    using calculateRowSame_ok [OF row] by simp
  from candidate_column_positive [OF this i(2)] have "c < length genes" by simp
  then show ?thesis using r cc by simp
qed

lemma core_nth: "map core gs = map core gs' \<Longrightarrow> i < length gs \<Longrightarrow> core (gs ! i) = core (gs' ! i)"
  by (metis length_map nth_map)

lemma write_edges_cong:
  assumes "map core rowGenes = map core rowGenes'" "map core colGenes = map core colGenes'"
    and "\<forall>e \<in> set es. fst e < length rowGenes \<and> fst (snd e) < length colGenes"
  shows "write_edges rowGenes colGenes es = write_edges rowGenes' colGenes' es"
  unfolding write_edges_def
proof (rule map_cong [OF refl])
  fix e assume e: "e \<in> set es"
  obtain r c s where rcs: "e = (r, c, s)" by (cases e)
  have b: "r < length rowGenes" "c < length colGenes" using assms(3) e rcs by auto
  have "core (rowGenes ! r) = core (rowGenes' ! r)" "core (colGenes ! c) = core (colGenes' ! c)"
    using core_nth [OF assms(1) b(1)] core_nth [OF assms(2) b(2)] by simp_all
  then have "geneFilePosition (rowGenes ! r) = geneFilePosition (rowGenes' ! r)"
    "geneFilePosition (colGenes ! c) = geneFilePosition (colGenes' ! c)"
    by (simp_all add: core_def)
  then show "(case e of (r, c, s) \<Rightarrow> (geneFilePosition (rowGenes ! r), geneFilePosition (colGenes ! c), s))
           = (case e of (r, c, s) \<Rightarrow> (geneFilePosition (rowGenes' ! r), geneFilePosition (colGenes' ! c), s))"
    by (simp add: rcs)
qed

section \<open>The two modes of the driver\<close>

text \<open>
  Two mappers that both represent the genes of a pair give the same similarities, hence the
  same lines for the pair.  In the lazy mode the mapper of a row genome grows with every
  column genome; the genes built before stay represented.
\<close>

lemma represented_similarity:
  assumes "mapper_ok m" "\<forall>g \<in> set rowGenes \<union> set colGenes. gene_rep m k g"
    and "r < length rowGenes" "c < length colGenes"
  shows "calculateSimilarity (rowGenes ! r) (colGenes ! c)
       = Some (seq_similarity k (core (rowGenes ! r)) (core (colGenes ! c)))"
proof -
  have "gene_rep m k (rowGenes ! r)" "gene_rep m k (colGenes ! c)" using assms(2,3,4) by simp_all
  then show ?thesis using assms(1) by (intro similarity_of_represented)
qed

lemma pair_different:
  assumes "mapper_ok m" "\<forall>g \<in> set rowGenes \<union> set colGenes. gene_rep m k g"
    and "mapper_ok m2" "\<forall>g \<in> set rowGenes2 \<union> set colGenes2. gene_rep m2 k g"
    and "map core rowGenes = map core rowGenes2" "map core colGenes = map core colGenes2"
  shows "lines_different colGenes rowGenes = lines_different colGenes2 rowGenes2
       \<and> lines_different colGenes rowGenes \<noteq> None"
proof -
  have L: "length rowGenes = length rowGenes2" "length colGenes = length colGenes2"
    using assms(5,6) by (auto dest: map_eq_imp_length_eq)
  have S: "\<And>r c. r < length rowGenes \<Longrightarrow> c < length colGenes
             \<Longrightarrow> calculateSimilarity (rowGenes ! r) (colGenes ! c) = calculateSimilarity (rowGenes2 ! r) (colGenes2 ! c)"
  proof -
    fix r c assume rc: "r < length rowGenes" "c < length colGenes"
    have "calculateSimilarity (rowGenes ! r) (colGenes ! c)
        = Some (seq_similarity k (core (rowGenes ! r)) (core (colGenes ! c)))"
      using assms(1,2) rc by (rule represented_similarity)
    moreover have "calculateSimilarity (rowGenes2 ! r) (colGenes2 ! c)
        = Some (seq_similarity k (core (rowGenes2 ! r)) (core (colGenes2 ! c)))"
      using assms(3,4) rc L by (intro represented_similarity) simp_all
    moreover have "core (rowGenes ! r) = core (rowGenes2 ! r)" using assms(5) rc(1) by (rule core_nth)
    moreover have "core (colGenes ! c) = core (colGenes2 ! c)" using assms(6) rc(2) by (rule core_nth)
    ultimately show "calculateSimilarity (rowGenes ! r) (colGenes ! c) = calculateSimilarity (rowGenes2 ! r) (colGenes2 ! c)"
      by simp
  qed
  have D: "calculateBidirectionalBestHitDifferentGenomes colGenes rowGenes
         = calculateBidirectionalBestHitDifferentGenomes colGenes2 rowGenes2"
    using L S by (rule different_cong)
  have "calculateBidirectionalBestHitDifferentGenomes colGenes rowGenes \<noteq> None"
  proof (rule different_total)
    fix r c assume "r < length rowGenes" "c < length colGenes"
    with represented_similarity [OF assms(1,2)]
    show "calculateSimilarity (rowGenes ! r) (colGenes ! c) \<noteq> None" by simp
  qed
  then obtain es where es: "calculateBidirectionalBestHitDifferentGenomes colGenes rowGenes = Some es" by auto
  have "\<forall>e \<in> set es. fst e < length rowGenes \<and> fst (snd e) < length colGenes"
    using different_edge_bounds [OF es] by blast
  with assms(5,6) have "write_edges rowGenes colGenes es = write_edges rowGenes2 colGenes2 es"
    by (rule write_edges_cong)
  then show ?thesis using es D by (simp add: lines_different_def)
qed

lemma pair_same:
  assumes "mapper_ok m" "\<forall>g \<in> set genes. gene_rep m k g"
    and "mapper_ok m2" "\<forall>g \<in> set genes2. gene_rep m2 k g"
    and "map core genes = map core genes2"
  shows "lines_same genes = lines_same genes2 \<and> lines_same genes \<noteq> None"
proof -
  have L: "length genes = length genes2" using assms(5) by (auto dest: map_eq_imp_length_eq)
  have r1: "\<forall>g \<in> set genes \<union> set genes. gene_rep m k g" using assms(2) by simp
  have r2: "\<forall>g \<in> set genes2 \<union> set genes2. gene_rep m2 k g" using assms(4) by simp
  have S: "\<And>r c. r < length genes \<Longrightarrow> c < length genes
             \<Longrightarrow> calculateSimilarity (genes ! r) (genes ! c) = calculateSimilarity (genes2 ! r) (genes2 ! c)"
  proof -
    fix r c assume rc: "r < length genes" "c < length genes"
    have "calculateSimilarity (genes ! r) (genes ! c)
        = Some (seq_similarity k (core (genes ! r)) (core (genes ! c)))"
      using assms(1) r1 rc by (rule represented_similarity)
    moreover have "calculateSimilarity (genes2 ! r) (genes2 ! c)
        = Some (seq_similarity k (core (genes2 ! r)) (core (genes2 ! c)))"
      using assms(3) r2 rc L by (intro represented_similarity) simp_all
    moreover have "core (genes ! r) = core (genes2 ! r)" using assms(5) rc(1) by (rule core_nth)
    moreover have "core (genes ! c) = core (genes2 ! c)" using assms(5) rc(2) by (rule core_nth)
    ultimately show "calculateSimilarity (genes ! r) (genes ! c) = calculateSimilarity (genes2 ! r) (genes2 ! c)"
      by simp
  qed
  have D: "calculateBidirectionalBestHitSameGenome genes = calculateBidirectionalBestHitSameGenome genes2"
    using L S by (rule same_cong)
  have "calculateBidirectionalBestHitSameGenome genes \<noteq> None"
  proof (rule same_total)
    fix r c assume "r < length genes" "c < length genes"
    with represented_similarity [OF assms(1) r1]
    show "calculateSimilarity (genes ! r) (genes ! c) \<noteq> None" by simp
  qed
  then obtain es where es: "calculateBidirectionalBestHitSameGenome genes = Some es" by auto
  have "\<forall>e \<in> set es. fst e < length genes \<and> fst (snd e) < length genes"
    using same_edge_bounds [OF es] by blast
  with assms(5) assms(5) have "write_edges genes genes es = write_edges genes2 genes2 es"
    by (rule write_edges_cong)
  then show ?thesis using es D by (simp add: lines_same_def)
qed

lemma deleteAllKmers_core: "map core (deleteAllKmers gs) = map core gs"
  by (simp add: deleteAllKmers_def core_def comp_def)

lemma lazy_cols_eager:
  assumes "mapper_ok m" "\<forall>g \<in> set rowL. gene_rep m k g"
    and "mapper_ok M" "\<forall>g \<in> set rowE. gene_rep M k g" "map core rowL = map core rowE"
    and "\<forall>genome \<in> set restE. \<forall>g \<in> set genome. gene_rep M k g"
    and "map (map core) rest = map (map core) restE"
  shows "\<exists>rest' out. lazy_cols k m rowL rest = Some (rest', out) \<and> eager_cols rowE restE = Some out
           \<and> map (map core) rest' = map (map core) rest"
  using assms(1,2,6,7)
proof (induction rest arbitrary: m restE)
  case Nil
  then show ?case by simp
next
  case (Cons col rest)
  from Cons.prems(4) obtain colE restE' where rE: "restE = colE # restE'"
    and cc: "map core col = map core colE" and cr: "map (map core) rest = map (map core) restE'"
    by (cases restE) auto
  obtain m' col' where b: "createAndCalculateAllKmers k m col = (m', col')"
    by (cases "createAndCalculateAllKmers k m col")
  from createAll_rep [OF Cons.prems(1) b] obtain xs where
    ok': "mapper_ok m'" and e: "m' = m @ xs" and rc: "\<forall>g \<in> set col'. gene_rep m' k g"
    and c': "map core col' = map core col" by blast
  have rr: "\<forall>g \<in> set rowL. gene_rep m' k g" unfolding e using Cons.prems(2) by (auto intro: gene_rep_extend)
  have "lines_different col' rowL = lines_different colE rowE \<and> lines_different col' rowL \<noteq> None"
  proof (rule pair_different [OF ok' _ assms(3) _ assms(5)])
    show "\<forall>g \<in> set rowL \<union> set col'. gene_rep m' k g" using rr rc by auto
    show "\<forall>g \<in> set rowE \<union> set colE. gene_rep M k g" using assms(4) Cons.prems(3) rE by auto
    show "map core col' = map core colE" using c' cc by simp
  qed
  then have e: "lines_different col' rowL = lines_different colE rowE"
    and n: "lines_different col' rowL \<noteq> None" by blast+
  from n obtain out where o1: "lines_different col' rowL = Some out" by blast
  have o: "lines_different col' rowL = Some out" "lines_different colE rowE = Some out"
    using o1 e by simp_all
  have "\<exists>rest' out'. lazy_cols k m' rowL rest = Some (rest', out') \<and> eager_cols rowE restE' = Some out'
           \<and> map (map core) rest' = map (map core) rest"
    using ok' rr Cons.prems(3) cr unfolding rE by (intro Cons.IH) simp_all
  then obtain rest' out' where ih: "lazy_cols k m' rowL rest = Some (rest', out')"
    "eager_cols rowE restE' = Some out'" "map (map core) rest' = map (map core) rest" by blast
  have "lazy_cols k m rowL (col # rest) = Some (deleteAllKmers col' # rest', out @ out')"
    using b o(1) ih(1) by simp
  moreover have "eager_cols rowE restE = Some (out @ out')" unfolding rE using o(2) ih(2) by simp
  moreover have "map (map core) (deleteAllKmers col' # rest') = map (map core) (col # rest)"
    using ih(3) c' by (simp add: deleteAllKmers_core)
  ultimately show ?case by blast
qed

lemma lazy_rows_eager:
  assumes "mapper_ok M"
  shows "\<forall>genome \<in> set gsE. \<forall>g \<in> set genome. gene_rep M k g \<Longrightarrow> map (map core) gs = map (map core) gsE
   \<Longrightarrow> \<exists>gs' out. lazy_rows k gs = Some (gs', out) \<and> eager_rows gsE = Some out"
proof (induction gsE arbitrary: gs)
  case Nil
  then show ?case by simp
next
  case (Cons rowE restE)
  from Cons.prems(2) obtain row rest where g: "gs = row # rest"
    and cr: "map core row = map core rowE" and cs: "map (map core) rest = map (map core) restE"
    by (cases gs) auto
  obtain m rowL where b: "createAndCalculateAllKmers k [] row = (m, rowL)"
    by (cases "createAndCalculateAllKmers k [] row")
  from createAll_rep [OF mapper_ok_Nil b] have
    ok: "mapper_ok m" and rl: "\<forall>g \<in> set rowL. gene_rep m k g" and cl: "map core rowL = map core row"
    by blast+
  have rE: "\<forall>g \<in> set rowE. gene_rep M k g" using Cons.prems(1) by simp
  have restE: "\<forall>genome \<in> set restE. \<forall>g \<in> set genome. gene_rep M k g" using Cons.prems(1) by simp
  have clE: "map core rowL = map core rowE" using cl cr by simp
  have "lines_same rowL = lines_same rowE \<and> lines_same rowL \<noteq> None"
    using ok rl assms rE clE by (rule pair_same)
  then have e: "lines_same rowL = lines_same rowE"
    and n: "lines_same rowL \<noteq> None" by blast+
  from n obtain out where o1: "lines_same rowL = Some out" by blast
  have o: "lines_same rowL = Some out" "lines_same rowE = Some out"
    using o1 e by simp_all
  from lazy_cols_eager [OF ok rl assms rE clE restE cs]
  obtain rest' out1 where c: "lazy_cols k m rowL rest = Some (rest', out1)"
    "eager_cols rowE restE = Some out1" "map (map core) rest' = map (map core) rest" by blast
  have "map (map core) rest' = map (map core) restE" using c(3) cs by simp
  from Cons.IH [OF restE this]
  obtain rest'' out2 where r: "lazy_rows k rest' = Some (rest'', out2)" "eager_rows restE = Some out2" by blast
  have "lazy_rows k gs = Some (deleteAllKmers rowL # rest'', out @ out1 @ out2)"
    unfolding g using b o(1) c(1) r(1) by simp
  moreover have "eager_rows (rowE # restE) = Some (out @ out1 @ out2)"
    using o(2) c(2) r(2) by simp
  ultimately show ?case by blast
qed

text \<open>
  C4.  For every list of genomes and every \<open>k\<close>, the driver returns in the lazy mode
  (\<open>mode = True\<close>: the k-mers built around each pair, with a new mapper for each row genome)
  and in the eager mode (\<open>mode = False\<close>: all k-mers built first, with one mapper), and the
  two runs write the same set of edges.
\<close>

theorem lazy_and_eager_same_edges:
  "\<exists>lazy eager. calculateBidirectionalBestHit k genomes True = Some lazy
      \<and> calculateBidirectionalBestHit k genomes False = Some eager
      \<and> set lazy = set eager"
proof -
  obtain M gsE where b: "createAllGenomes k [] genomes = (M, gsE)"
    by (cases "createAllGenomes k [] genomes")
  from createAllGenomes_rep [OF mapper_ok_Nil b] have
    ok: "mapper_ok M" and r: "\<forall>genome \<in> set gsE. \<forall>g \<in> set genome. gene_rep M k g"
    and c: "map (map core) gsE = map (map core) genomes" by blast+
  from lazy_rows_eager [OF ok r c [symmetric]]
  obtain gs' out where "lazy_rows k genomes = Some (gs', out)" "eager_rows gsE = Some out" by blast
  then have "calculateBidirectionalBestHit k genomes True = Some out"
    "calculateBidirectionalBestHit k genomes False = Some out"
    using b by (simp_all add: calculateBidirectionalBestHit_def)
  then show ?thesis by blast
qed

theorem lazy_and_eager_same_edges_witness:
  "calculateBidirectionalBestHit 3 exampleGenomes True
     = Some [(10, 20, Fin (1 / 7)), (10, 11, Fin 1), (20, 40, Fin (1 / 7)), (40, 11, Fin (1 / 7))]
   \<and> (\<exists>eager. calculateBidirectionalBestHit 3 exampleGenomes False = Some eager
        \<and> set eager = {(10, 20, Fin (1 / 7)), (10, 11, Fin 1), (20, 40, Fin (1 / 7)), (40, 11, Fin (1 / 7))})"
proof -
  have l: "calculateBidirectionalBestHit 3 exampleGenomes True
     = Some [(10, 20, Fin (1 / 7)), (10, 11, Fin 1), (20, 40, Fin (1 / 7)), (40, 11, Fin (1 / 7))]"
    by code_simp
  from lazy_and_eager_same_edges [of 3 exampleGenomes] obtain lazy eager where
    a: "calculateBidirectionalBestHit 3 exampleGenomes True = Some lazy"
    and b: "calculateBidirectionalBestHit 3 exampleGenomes False = Some eager"
    and c: "set lazy = set eager" by blast
  from a l have "lazy = [(10, 20, Fin (1 / 7)), (10, 11, Fin 1), (20, 40, Fin (1 / 7)), (40, 11, Fin (1 / 7))]"
    by simp
  with c have "set eager = {(10, 20, Fin (1 / 7)), (10, 11, Fin 1), (20, 40, Fin (1 / 7)), (40, 11, Fin (1 / 7))}"
    by auto
  with l b show ?thesis by blast
qed

end
